theory Spec2Isabelle
  imports Complex_Main "HOL-Library.AList"
begin

section \<open>Common notions\<close>

text \<open>
  A raised Python exception is a value; every function that can raise returns a sum whose
  left injection carries it.
\<close>

datatype exn = Exn string

section \<open>The SSH connection pool (server/ssh\_service.py, class SSHConnectionPool)\<close>

text \<open>
  A \<open>paramiko.SSHClient\<close> object is represented by its identity. The attribute
  \<open>connections : Dict[str, List[Tuple[SSHClient, float]]]\<close> is an association list in
  insertion order, as a Python dict is: \<open>map_of\<close> is the lookup,
  \<open>AList.update\<close> the item assignment (an existing key keeps its place, a new key goes to
  the end) and \<open>AList.delete\<close> the \<open>del\<close> statement. Clock readings of
  \<open>time.time()\<close> are real numbers. The field \<open>closed\<close> is not in the source: it logs,
  in order, every handle on which \<open>close()\<close> was called, so that closing can be observed.
\<close>

type_synonym conn = nat

record pool =
  max_connections :: int
  connections :: "(string \<times> (conn \<times> real) list) list"
  closed :: "conn list"

definition new_pool :: "int \<Rightarrow> pool" where
  "new_pool max_conns = \<lparr>max_connections = max_conns, connections = [], closed = []\<rparr>"

text \<open>The idle list of a target as a caller of the dict sees it (no key: no entries).\<close>

definition idle :: "pool \<Rightarrow> string \<Rightarrow> (conn \<times> real) list" where
  "idle p server_name = (case map_of (connections p) server_name of None \<Rightarrow> [] | Some l \<Rightarrow> l)"

text \<open>
  \<open>cleanup_idle_connections\<close>: the body of the outer loop for one key. An entry is closed
  when \<open>current_time - last_used > max_idle_time\<close> and kept otherwise; \<open>close()\<close> raising
  is caught and logged, so the call is recorded either way. A key whose list is left empty
  is deleted.
\<close>

definition idle_too_long :: "real \<Rightarrow> real \<Rightarrow> conn \<times> real \<Rightarrow> bool" where
  "idle_too_long current_time max_idle_time = (\<lambda>(client, last_used). current_time - last_used > max_idle_time)"

definition cleanup_server :: "real \<Rightarrow> real \<Rightarrow> string \<Rightarrow> pool \<Rightarrow> pool" where
  "cleanup_server current_time max_idle_time server_name p =
     (case map_of (connections p) server_name of
        None \<Rightarrow> p
      | Some conns \<Rightarrow>
          (let active_connections = filter (\<lambda>e. \<not> idle_too_long current_time max_idle_time e) conns;
               closed_now = map fst (filter (idle_too_long current_time max_idle_time) conns)
           in p\<lparr>connections :=
                  (if active_connections \<noteq> []
                   then AList.update server_name active_connections (connections p)
                   else AList.delete server_name (connections p)),
                closed := closed p @ closed_now\<rparr>))"

definition cleanup_idle_connections :: "real \<Rightarrow> real \<Rightarrow> pool \<Rightarrow> pool" where
  "cleanup_idle_connections current_time max_idle_time p =
     fold (cleanup_server current_time max_idle_time) (map fst (connections p)) p"

text \<open>
  \<open>get_connection\<close> is a generator-based context manager; it is split at its \<open>yield\<close>.

  \<open>acquire\<close> is the part before the \<open>yield\<close>. \<open>alive c\<close> tells whether
  \<open>c.get_transport().send_ignore()\<close> returns without raising; \<open>connect_func\<close> is the outcome
  of calling the caller's \<open>connect_func()\<close>, a new handle or the exception it raises. When
  \<open>connect_func()\<close> raises, \<open>connection\<close> is still \<open>None\<close>, the \<open>finally\<close> block does
  nothing and the exception reaches the caller.
\<close>

definition acquire :: "string \<Rightarrow> (conn \<Rightarrow> bool) \<Rightarrow> exn + conn \<Rightarrow> pool \<Rightarrow> (exn + conn) \<times> pool" where
  "acquire server_name alive connect_func p =
     (let (connection, p1) =
            (case map_of (connections p) server_name of
               None \<Rightarrow> (None, p)
             | Some conns \<Rightarrow>
                 if conns \<noteq> [] then
                   (let popped = fst (last conns);
                        p' = p\<lparr>connections := AList.update server_name (butlast conns) (connections p)\<rparr>
                    in (if alive popped then Some popped else None, p'))
                 else (None, p))
      in case connection of
           Some c \<Rightarrow> (Inr c, p1)
         | None \<Rightarrow> (connect_func, p1))"

text \<open>
  \<open>release\<close> is the code after the \<open>yield\<close> followed by the \<open>finally\<close> block, reached
  when the caller's \<open>with\<close> body ends normally; \<open>now\<close> is the reading of \<open>time.time()\<close>.
\<close>

definition release :: "string \<Rightarrow> conn \<Rightarrow> real \<Rightarrow> pool \<Rightarrow> pool" where
  "release server_name connection now p =
     (let p1 = (if map_of (connections p) server_name = None
                then p\<lparr>connections := AList.update server_name [] (connections p)\<rparr> else p)
      in if int (length (idle p1 server_name)) < max_connections p1
         then p1\<lparr>connections :=
                   AList.update server_name (idle p1 server_name @ [(connection, now)]) (connections p1)\<rparr>
         else p1\<lparr>closed := closed p1 @ [connection]\<rparr>)"

text \<open>
  \<open>finally_close\<close> is the \<open>finally\<close> block alone, reached when the caller's \<open>with\<close> body
  raises: the exception is thrown into the generator at the \<open>yield\<close>, the code that returns
  the connection to the pool is skipped, and \<open>connection\<close> is still set.
\<close>

definition finally_close :: "conn \<Rightarrow> pool \<Rightarrow> pool" where
  "finally_close connection p = p\<lparr>closed := closed p @ [connection]\<rparr>"

text \<open>
  A whole \<open>with pool.get_connection(server_name, connect_func) as c: body\<close>. The body may
  itself change the pool (other users of the pool run while the lease is out).
\<close>

definition get_connection ::
  "string \<Rightarrow> (conn \<Rightarrow> bool) \<Rightarrow> exn + conn \<Rightarrow> (conn \<Rightarrow> pool \<Rightarrow> (exn + 'a) \<times> pool) \<Rightarrow> real \<Rightarrow> pool
     \<Rightarrow> (exn + 'a) \<times> pool" where
  "get_connection server_name alive connect_func body now p =
     (case acquire server_name alive connect_func p of
        (Inl e, p1) \<Rightarrow> (Inl e, p1)
      | (Inr c, p1) \<Rightarrow>
          (case body c p1 of
             (Inr r, p2) \<Rightarrow> (Inr r, release server_name c now p2)
           | (Inl e, p2) \<Rightarrow> (Inl e, finally_close c p2)))"

text \<open>Sequences of pool operations, for the invariants.\<close>

datatype pool_op =
    Acquire string "conn \<Rightarrow> bool" "exn + conn"
  | Release string conn real
  | FinallyClose conn
  | Cleanup real real

fun pool_step :: "pool_op \<Rightarrow> pool \<Rightarrow> pool" where
  "pool_step (Acquire server_name alive connect_func) p = snd (acquire server_name alive connect_func p)"
| "pool_step (Release server_name c now) p = release server_name c now p"
| "pool_step (FinallyClose c) p = finally_close c p"
| "pool_step (Cleanup current_time max_idle_time) p = cleanup_idle_connections current_time max_idle_time p"

definition pool_run :: "pool_op list \<Rightarrow> pool \<Rightarrow> pool" where
  "pool_run ops p = fold pool_step ops p"

fun releases :: "conn \<Rightarrow> pool_op \<Rightarrow> bool" where
  "releases c (Release server_name c' now) = (c = c')"
| "releases c _ = False"

definition pool_bounded :: "pool \<Rightarrow> bool" where
  "pool_bounded p =
     (\<forall>server_name conns.
        map_of (connections p) server_name = Some conns \<longrightarrow> int (length conns) \<le> max_connections p)"

text \<open>The handles held in the pool, over the keys of the dict.\<close>

definition pool_handles :: "pool \<Rightarrow> conn set" where
  "pool_handles p = (\<Union>server_name \<in> set (map fst (connections p)). fst ` set (idle p server_name))"

definition pool_distinct :: "pool \<Rightarrow> bool" where
  "pool_distinct p =
     ((\<forall>k. distinct (map fst (idle p k))) \<and>
      (\<forall>k k'. k \<noteq> k' \<longrightarrow> fst ` set (idle p k) \<inter> fst ` set (idle p k') = {}))"

text \<open>
  The discipline of leases: a handle is given back only while it is out of the pool (the
  context manager releases the handle it yielded, once, and \<open>connect_func\<close> makes new
  handles).
\<close>

fun disciplined :: "pool_op list \<Rightarrow> pool \<Rightarrow> bool" where
  "disciplined [] p = True"
| "disciplined (op # ops) p =
     ((case op of Release server_name c now \<Rightarrow> c \<notin> pool_handles p | _ \<Rightarrow> True) \<and>
      disciplined ops (pool_step op p))"

text \<open>
  The release rule in the words of the specification: the connection goes back onto the
  idle list when that list holds fewer than \<open>max_connections\<close> entries, and is closed
  otherwise; exactly one of the two happens.
\<close>

definition release_spec :: "string \<Rightarrow> conn \<Rightarrow> real \<Rightarrow> pool \<Rightarrow> pool \<Rightarrow> bool" where
  "release_spec server_name c now p p' =
     (if int (length (idle p server_name)) < max_connections p
      then idle p' server_name = idle p server_name @ [(c, now)] \<and> closed p' = closed p
      else idle p' server_name = idle p server_name \<and> closed p' = closed p @ [c])"

text \<open>How often a handle was closed, and how often it sits in the idle list of a target.\<close>

definition times_closed :: "pool \<Rightarrow> conn \<Rightarrow> nat" where
  "times_closed p c = count_list (closed p) c"

definition times_idle :: "pool \<Rightarrow> string \<Rightarrow> conn \<Rightarrow> nat" where
  "times_idle p server_name c = count_list (map fst (idle p server_name)) c"

section \<open>The event hub (server/websocket\_service.py, class WebSocketService)\<close>

text \<open>
  A \<open>datetime\<close> is the number of microseconds since the epoch, so the difference of two
  of them is a \<open>timedelta\<close> in microseconds. Python normalises a \<open>timedelta\<close> to days,
  seconds (\<open>0 \<le> seconds < 86400\<close>) and microseconds; its attribute \<open>.seconds\<close> is the
  seconds component alone, also for a negative difference (floor division).
\<close>

definition td_seconds :: "int \<Rightarrow> int" where
  "td_seconds delta = (delta div 1000000) mod 86400"

definition total_seconds_exceeds :: "int \<Rightarrow> int \<Rightarrow> bool" where
  \<comment> \<open>the elapsed time \<open>delta\<close> (microseconds) is more than \<open>secs\<close> seconds\<close>
  "total_seconds_exceeds delta secs = (delta > secs * 1000000)"

text \<open>
  A transport handle \<open>ws\<close> is represented by its identity \<open>id(ws)\<close>, and the client id
  \<open>str(id(ws))\<close> by the same number (\<open>str\<close> is injective). A queued item is a message
  or \<open>None\<close>, the shutdown signal. The dict \<open>clients\<close> is an association list in
  insertion order; \<open>event_handlers : Dict[str, Set[str]]\<close> is a map to sets.
\<close>

type_synonym client_id = nat

datatype 'd message = Event string 'd int | Pong

record 'd client =
  id' :: client_id
  ws :: nat
  subscriptions :: "string set"
  last_ping :: int
  message_queue :: "'d message option list"

record 'd hub =
  clients :: "(client_id \<times> 'd client) list"
  event_handlers :: "string \<rightharpoonup> client_id set"
  ping_interval :: int

definition new_hub :: "int \<Rightarrow> 'd hub" where
  "new_hub interval = \<lparr>clients = [], event_handlers = Map.empty, ping_interval = interval\<rparr>"

text \<open>The subscribers of an event type (no key: nobody).\<close>

definition subscribers :: "'d hub \<Rightarrow> string \<Rightarrow> client_id set" where
  "subscribers h event_type = (case event_handlers h event_type of None \<Rightarrow> {} | Some s \<Rightarrow> s)"

text \<open>
  \<open>_remove_client\<close> (the leading underscore of a Python name is dropped throughout). Its
  loop \<open>for event_type in client.subscriptions\<close> discards the id from the set stored under
  each subscribed event type that is a key of \<open>event_handlers\<close>; every iteration touches
  another key, so the loop is written as one pointwise update of the dict
  (\<open>discard_loop\<close> below is the loop itself, and \<open>discard_loop_pointwise\<close> shows that
  it computes this update in any iteration order).
\<close>

definition remove_client :: "client_id \<Rightarrow> 'd hub \<Rightarrow> 'd hub" where
  "remove_client client_id h =
     (case map_of (clients h) client_id of
        None \<Rightarrow> h
      | Some client \<Rightarrow>
          h\<lparr>event_handlers :=
              (\<lambda>event_type.
                 if event_type \<in> subscriptions client
                 then (case event_handlers h event_type of
                         None \<Rightarrow> None
                       | Some s \<Rightarrow> Some (s - {client_id}))
                 else event_handlers h event_type),
            clients := AList.delete client_id (clients h)\<rparr>)"

definition discard_handler :: "client_id \<Rightarrow> string \<Rightarrow> (string \<rightharpoonup> client_id set) \<Rightarrow> (string \<rightharpoonup> client_id set)" where
  "discard_handler client_id event_type handlers =
     (case handlers event_type of
        None \<Rightarrow> handlers
      | Some s \<Rightarrow> handlers(event_type \<mapsto> s - {client_id}))"

definition discard_loop :: "client_id \<Rightarrow> string list \<Rightarrow> (string \<rightharpoonup> client_id set) \<Rightarrow> (string \<rightharpoonup> client_id set)" where
  "discard_loop client_id order handlers = fold (discard_handler client_id) order handlers"

text \<open>
  \<open>_check_client_health\<close>, with \<open>current_time\<close> the reading of \<open>datetime.utcnow()\<close>.
  The keys are those of the dict when the loop starts; a key cannot be missing when its
  turn comes, since only the client of the current iteration is removed.
\<close>

definition check_one_client :: "int \<Rightarrow> client_id \<Rightarrow> 'd hub \<Rightarrow> 'd hub" where
  "check_one_client current_time client_id h =
     (case map_of (clients h) client_id of
        None \<Rightarrow> h
      | Some client \<Rightarrow>
          if td_seconds (current_time - last_ping client) > ping_interval h * 2
          then remove_client client_id h else h)"

definition check_client_health :: "int \<Rightarrow> 'd hub \<Rightarrow> 'd hub" where
  "check_client_health current_time h =
     fold (check_one_client current_time) (map fst (clients h)) h"

text \<open>
  \<open>register_client\<close>; \<open>now\<close> is the reading of \<open>datetime.utcnow()\<close>. The delivery
  thread it starts is \<open>message_worker\<close> below.
\<close>

definition register_client :: "nat \<Rightarrow> int \<Rightarrow> 'd hub \<Rightarrow> client_id \<times> 'd hub" where
  "register_client w now h =
     (let client_id = w;
          client = \<lparr>id' = client_id, ws = w, subscriptions = {}, last_ping = now,
                    message_queue = []\<rparr>
      in (client_id, h\<lparr>clients := AList.update client_id client (clients h)\<rparr>))"

definition unregister_client :: "client_id \<Rightarrow> 'd hub \<Rightarrow> 'd hub" where
  "unregister_client client_id h =
     (case map_of (clients h) client_id of
        None \<Rightarrow> h
      | Some client \<Rightarrow>
          remove_client client_id
            (h\<lparr>clients := AList.update client_id
                 (client\<lparr>message_queue := message_queue client @ [None]\<rparr>) (clients h)\<rparr>))"

definition subscribe :: "client_id \<Rightarrow> string \<Rightarrow> 'd hub \<Rightarrow> 'd hub" where
  "subscribe client_id event_type h =
     (case map_of (clients h) client_id of
        None \<Rightarrow> h
      | Some client \<Rightarrow>
          h\<lparr>clients := AList.update client_id
                 (client\<lparr>subscriptions := insert event_type (subscriptions client)\<rparr>) (clients h),
            event_handlers :=
              (event_handlers h)(event_type \<mapsto> insert client_id (subscribers h event_type))\<rparr>)"

definition unsubscribe :: "client_id \<Rightarrow> string \<Rightarrow> 'd hub \<Rightarrow> 'd hub" where
  "unsubscribe client_id event_type h =
     (case map_of (clients h) client_id of
        None \<Rightarrow> h
      | Some client \<Rightarrow>
          h\<lparr>clients := AList.update client_id
                 (client\<lparr>subscriptions := subscriptions client - {event_type}\<rparr>) (clients h),
            event_handlers :=
              (case event_handlers h event_type of
                 None \<Rightarrow> event_handlers h
               | Some s \<Rightarrow> (event_handlers h)(event_type \<mapsto> s - {client_id}))\<rparr>)"

text \<open>\<open>send_to_client\<close>: \<open>Queue.put\<close> on an unbounded queue appends and never blocks.\<close>

definition send_to_client :: "client_id \<Rightarrow> 'd message \<Rightarrow> 'd hub \<Rightarrow> 'd hub" where
  "send_to_client client_id m h =
     (case map_of (clients h) client_id of
        None \<Rightarrow> h
      | Some client \<Rightarrow>
          h\<lparr>clients := AList.update client_id
                 (client\<lparr>message_queue := message_queue client @ [Some m]\<rparr>) (clients h)\<rparr>)"

text \<open>
  \<open>broadcast_event\<close>; \<open>now\<close> stands for the timestamp
  \<open>datetime.utcnow().isoformat()\<close>. A Python set is iterated in an order of its own, each
  element once: \<open>order\<close> is that order, an enumeration of the subscriber set without
  repetition.
\<close>

definition broadcast_event :: "client_id list \<Rightarrow> string \<Rightarrow> 'd \<Rightarrow> int \<Rightarrow> 'd hub \<Rightarrow> 'd hub" where
  "broadcast_event order event_type data now h =
     (let message = Event event_type data now
      in case event_handlers h event_type of
           None \<Rightarrow> h
         | Some s \<Rightarrow> fold (\<lambda>client_id. send_to_client client_id message) order h)"

definition iteration_of :: "'a list \<Rightarrow> 'a set \<Rightarrow> bool" where
  "iteration_of order s = (distinct order \<and> set order = s)"

text \<open>
  The delivery thread of one client, \<open>message_worker\<close> in \<open>_start_client_message_thread\<close>.
  The thread owns a reference to the client object; the list argument is what its
  \<open>message_queue\<close> holds, oldest first. \<open>get()\<close> takes the head; on an empty queue it
  blocks, which ends the run here; \<open>None\<close> breaks the loop. \<open>send_ok m\<close> tells whether
  \<open>client.ws.send(json.dumps(m))\<close> returns without raising; when it raises,
  \<open>_send_to_client\<close> removes the client and the loop goes on. The result is the messages
  written to the transport in order, the items left in the queue, and the hub.
\<close>

fun message_worker ::
  "('d message \<Rightarrow> bool) \<Rightarrow> client_id \<Rightarrow> 'd message option list \<Rightarrow> 'd hub
     \<Rightarrow> 'd message list \<times> 'd message option list \<times> 'd hub" where
  "message_worker send_ok client_id [] h = ([], [], h)"
| "message_worker send_ok client_id (None # queue) h = ([], queue, h)"
| "message_worker send_ok client_id (Some m # queue) h =
     (if send_ok m
      then (case message_worker send_ok client_id queue h of
              (written, rest, h') \<Rightarrow> (m # written, rest, h'))
      else message_worker send_ok client_id queue (remove_client client_id h))"

text \<open>The queue of a registered client.\<close>

definition queue_of :: "'d hub \<Rightarrow> client_id \<Rightarrow> 'd message option list" where
  "queue_of h client_id =
     (case map_of (clients h) client_id of None \<Rightarrow> [] | Some client \<Rightarrow> message_queue client)"

definition registered :: "'d hub \<Rightarrow> client_id \<Rightarrow> bool" where
  "registered h client_id = (map_of (clients h) client_id \<noteq> None)"

definition subscriptions_of :: "'d hub \<Rightarrow> client_id \<Rightarrow> string set" where
  "subscriptions_of h client_id =
     (case map_of (clients h) client_id of None \<Rightarrow> {} | Some client \<Rightarrow> subscriptions client)"

text \<open>
  The bidirectional invariant: an id is in the subscriber set of an event type exactly when
  it is registered and the event type is in its own subscription set.
\<close>

definition hub_inv :: "'d hub \<Rightarrow> bool" where
  "hub_inv h =
     (\<forall>client_id event_type.
        (client_id \<in> subscribers h event_type) =
        (registered h client_id \<and> event_type \<in> subscriptions_of h client_id))"

section \<open>The metrics cache and history (server/metrics\_service.py, class MetricsService)\<close>

text \<open>
  A metrics value is the dict built by \<open>get_system_metrics\<close>, from metric name to a float
  or, when the output does not parse, the stripped text. As every Python dict, it is
  false in a condition exactly when it is empty.
\<close>

datatype metric_value = Num real | Text string

type_synonym metrics = "(string \<times> metric_value) list"

definition truthy :: "metrics \<Rightarrow> bool" where
  "truthy d = (d \<noteq> [])"

record metric_cache =
  data :: metrics
  timestamp :: int
  ttl :: int

record history_entry =
  entry_timestamp :: int
  entry_data :: metrics

record cmd_result =
  exit_code :: int
  output' :: string
  error :: string

text \<open>
  The service. \<open>_metric_history\<close> is a \<open>defaultdict(list)\<close> whose lists are mutated in
  place and handed out by \<open>get_metrics_history\<close>, so list objects live in a store:
  \<open>metric_history\<close> maps a key to the reference of its list, \<open>lists\<close> maps a reference to
  the contents, and \<open>next_ref\<close> is the first unused reference. An entry's timestamp is
  stored as \<open>isoformat()\<close> text and read back with \<open>fromisoformat\<close>, which returns the
  same \<open>datetime\<close>; it is kept as the \<open>datetime\<close>. The field \<open>executed\<close> is not in the
  source: it logs the remote commands issued, (server, command), in order.
\<close>

record metrics_service =
  cache_ttl :: int
  cache :: "string \<rightharpoonup> metric_cache"
  metric_history :: "string \<rightharpoonup> nat"
  lists :: "nat \<Rightarrow> history_entry list"
  next_ref :: nat
  history_max_size :: int
  executed :: "(string \<times> string) list"

definition new_metrics_service :: "int \<Rightarrow> metrics_service" where
  "new_metrics_service ttl0 =
     \<lparr>cache_ttl = ttl0, cache = Map.empty, metric_history = Map.empty, lists = (\<lambda>r. []),
      next_ref = 0, history_max_size = 1000, executed = []\<rparr>"

definition alloc :: "history_entry list \<Rightarrow> metrics_service \<Rightarrow> nat \<times> metrics_service" where
  "alloc xs m = (next_ref m, m\<lparr>lists := (lists m)(next_ref m := xs), next_ref := Suc (next_ref m)\<rparr>)"

text \<open>The series stored for a history key (no key: empty).\<close>

definition series :: "metrics_service \<Rightarrow> string \<Rightarrow> history_entry list" where
  "series m key = (case metric_history m key of None \<Rightarrow> [] | Some r \<Rightarrow> lists m r)"

definition get_cache_key :: "string \<Rightarrow> string \<Rightarrow> string \<Rightarrow> string" where
  \<comment> \<open>\<open>param_str\<close> is \<open>json.dumps(params, sort_keys=True)\<close>, which is \<open>{}\<close> without parameters\<close>
  "get_cache_key metric_type server_name param_str =
     metric_type @ '':'' @ server_name @ '':'' @ param_str"

definition history_key :: "string \<Rightarrow> string \<Rightarrow> string" where
  "history_key metric_type server_name = metric_type @ '':'' @ server_name"

definition get_from_cache :: "string \<Rightarrow> int \<Rightarrow> metrics_service \<Rightarrow> metrics option \<times> metrics_service" where
  "get_from_cache cache_key now m =
     (case cache m cache_key of
        None \<Rightarrow> (None, m)
      | Some cache_entry \<Rightarrow>
          if td_seconds (now - timestamp cache_entry) \<le> ttl cache_entry
          then (Some (data cache_entry), m)
          else (None, m\<lparr>cache := (cache m)(cache_key := None)\<rparr>))"

definition store_in_cache :: "string \<Rightarrow> metrics \<Rightarrow> int option \<Rightarrow> int \<Rightarrow> metrics_service \<Rightarrow> metrics_service" where
  \<comment> \<open>\<open>ttl or self.cache_ttl\<close>: \<open>None\<close> and \<open>0\<close> both select the default\<close>
  "store_in_cache cache_key d ttl_arg now m =
     m\<lparr>cache := (cache m)(cache_key \<mapsto>
         \<lparr>data = d, timestamp = now,
          ttl = (case ttl_arg of None \<Rightarrow> cache_ttl m
                 | Some t \<Rightarrow> if t \<noteq> 0 then t else cache_ttl m)\<rparr>)\<rparr>"

text \<open>The Python slice \<open>xs[start:]\<close>, for a start of either sign.\<close>

definition slice_from :: "int \<Rightarrow> 'a list \<Rightarrow> 'a list" where
  "slice_from start xs =
     (let n = int (length xs);
          s = (if start < 0 then max 0 (start + n) else min start n)
      in drop (nat s) xs)"

text \<open>
  \<open>_store_in_history\<close>: \<open>self._metric_history[key]\<close> creates an empty list for a new key;
  \<open>append\<close> changes the list object in place; the trim binds the key to a new list, the
  slice.
\<close>

definition store_in_history :: "string \<Rightarrow> string \<Rightarrow> metrics \<Rightarrow> int \<Rightarrow> metrics_service \<Rightarrow> metrics_service" where
  "store_in_history metric_type server_name d now m =
     (let key = history_key metric_type server_name;
          entry = \<lparr>entry_timestamp = now, entry_data = d\<rparr>;
          (r, m1) = (case metric_history m key of
                       Some r \<Rightarrow> (r, m)
                     | None \<Rightarrow> (case alloc [] m of
                                 (r, m') \<Rightarrow> (r, m'\<lparr>metric_history := (metric_history m')(key \<mapsto> r)\<rparr>)));
          m2 = m1\<lparr>lists := (lists m1)(r := lists m1 r @ [entry])\<rparr>
      in if int (length (lists m2 r)) > history_max_size m2
         then (case alloc (slice_from (- history_max_size m2) (lists m2 r)) m2 of
                 (r', m3) \<Rightarrow> m3\<lparr>metric_history := (metric_history m3)(key \<mapsto> r')\<rparr>)
         else m2)"

text \<open>
  \<open>get_system_metrics\<close>. The remote side is a parameter: \<open>execute_command server command\<close>
  is the outcome of \<open>ssh_service.execute_command\<close>, a result or the exception it raises
  (the decorator \<open>with_error_handling\<close> logs and re-raises); \<open>strip\<close> is \<open>str.strip\<close> and
  \<open>to_float\<close> is \<open>float\<close>, \<open>None\<close> for \<open>ValueError\<close>. The three clock readings are those of
  \<open>_get_from_cache\<close>, \<open>_store_in_cache\<close> and \<open>_store_in_history\<close>.
\<close>

definition system_commands :: "(string \<times> string) list" where
  "system_commands =
     [(''cpu'', ''top -bn1 | grep 'Cpu(s)' | awk '{print $2 + $4}'' @ [CHR 0x27]),
      (''memory'', ''free -m | awk 'NR==2{printf '' @ [CHR 0x22] @ ''%.2f'' @ [CHR 0x22] @ '', $3*100/$2}'' @ [CHR 0x27]),
      (''disk'', ''df -h / | awk 'NR==2{print $5}' | sed 's/%//g'' @ [CHR 0x27]),
      (''load'', ''uptime | awk -F'[a-z]:' '{ print $2}'' @ [CHR 0x27])]"

fun collect_metrics ::
  "(string \<Rightarrow> string \<Rightarrow> exn + cmd_result) \<Rightarrow> (string \<Rightarrow> string) \<Rightarrow> (string \<Rightarrow> real option)
     \<Rightarrow> string \<Rightarrow> (string \<times> string) list \<Rightarrow> metrics \<Rightarrow> metrics_service
     \<Rightarrow> (exn + metrics) \<times> metrics_service" where
  "collect_metrics execute_command strip to_float server_name [] metrics m = (Inr metrics, m)"
| "collect_metrics execute_command strip to_float server_name ((metric, command) # rest) metrics m =
     (let m1 = m\<lparr>executed := executed m @ [(server_name, command)]\<rparr>
      in case execute_command server_name command of
           Inl e \<Rightarrow> (Inl e, m1)
         | Inr result \<Rightarrow>
             collect_metrics execute_command strip to_float server_name rest
               (if exit_code result = 0
                then AList.update metric
                       (case to_float (strip (output' result)) of
                          Some v \<Rightarrow> Num v
                        | None \<Rightarrow> Text (strip (output' result)))
                       metrics
                else metrics)
               m1)"

definition get_system_metrics ::
  "(string \<Rightarrow> string \<Rightarrow> exn + cmd_result) \<Rightarrow> (string \<Rightarrow> string) \<Rightarrow> (string \<Rightarrow> real option)
     \<Rightarrow> string \<Rightarrow> int \<Rightarrow> int \<Rightarrow> int \<Rightarrow> metrics_service \<Rightarrow> (exn + metrics) \<times> metrics_service" where
  "get_system_metrics execute_command strip to_float server_name t_lookup t_cache t_history m =
     (let cache_key = get_cache_key ''system'' server_name ''{}'';
          (cached_data, m1) = get_from_cache cache_key t_lookup m;
          fresh = (case collect_metrics execute_command strip to_float server_name system_commands [] m1 of
                     (Inl e, m2) \<Rightarrow> (Inl e, m2)
                   | (Inr metrics, m2) \<Rightarrow>
                       (Inr metrics,
                        store_in_history ''system'' server_name metrics t_history
                          (store_in_cache cache_key metrics None t_cache m2)))
      in case cached_data of
           None \<Rightarrow> fresh
         | Some d \<Rightarrow> if truthy d then (Inr d, m1) else fresh)"

text \<open>
  \<open>get_metrics_history\<close> returns a list object: the result is its reference.
  \<open>self._metric_history.get(key, [])\<close> is the stored list itself or, for a missing key, a
  new empty list that is not stored. A \<open>datetime\<close> bound is always true in a condition, so
  \<open>if start_time\<close> tests for \<open>None\<close>.
\<close>

definition in_bounds :: "int option \<Rightarrow> int option \<Rightarrow> history_entry \<Rightarrow> bool" where
  "in_bounds start_time end_time entry =
     (\<not> (case start_time of None \<Rightarrow> False | Some s \<Rightarrow> entry_timestamp entry < s) \<and>
      \<not> (case end_time of None \<Rightarrow> False | Some e \<Rightarrow> entry_timestamp entry > e))"

definition get_metrics_history ::
  "string \<Rightarrow> string \<Rightarrow> int option \<Rightarrow> int option \<Rightarrow> metrics_service \<Rightarrow> nat \<times> metrics_service" where
  "get_metrics_history metric_type server_name start_time end_time m =
     (let key = history_key metric_type server_name;
          (history, m1) = (case metric_history m key of Some r \<Rightarrow> (r, m) | None \<Rightarrow> alloc [] m)
      in if start_time \<noteq> None \<or> end_time \<noteq> None
         then alloc (filter (in_bounds start_time end_time) (lists m1 history)) m1
         else (history, m1))"

text \<open>The claim on expiry in the words of the specification: an entry is expired when its age exceeds its time to live.\<close>

definition expired :: "int \<Rightarrow> metric_cache \<Rightarrow> bool" where
  "expired now cache_entry = total_seconds_exceeds (now - timestamp cache_entry) (ttl cache_entry)"

text \<open>
  A sequence of \<open>_store_in_history\<close> calls, one for every refresh that succeeded, each
  with its metric type, server name, data and clock reading.
\<close>

fun store_all :: "(string \<times> string \<times> metrics \<times> int) list \<Rightarrow> metrics_service \<Rightarrow> metrics_service" where
  "store_all [] m = m"
| "store_all ((metric_type, server_name, d, now) # rest) m =
     store_all rest (store_in_history metric_type server_name d now m)"

text \<open>The entries those calls append under one history key, in call order.\<close>

definition entries_for :: "string \<Rightarrow> (string \<times> string \<times> metrics \<times> int) list \<Rightarrow> history_entry list" where
  "entries_for key calls =
     map (\<lambda>(metric_type, server_name, d, now). \<lparr>entry_timestamp = now, entry_data = d\<rparr>)
       (filter (\<lambda>(metric_type, server_name, d, now). history_key metric_type server_name = key) calls)"

text \<open>The newest \<open>n\<close> elements of a list, in the order of the list.\<close>

definition newest :: "nat \<Rightarrow> 'a list \<Rightarrow> 'a list" where
  "newest n xs = drop (length xs - n) xs"

text \<open>
  The store of list objects is well formed: a stored reference is in use, and two keys
  never share a list.
\<close>

definition hist_wf :: "metrics_service \<Rightarrow> bool" where
  "hist_wf m =
     ((\<forall>k r. metric_history m k = Some r \<longrightarrow> r < next_ref m) \<and>
      (\<forall>k k' r. metric_history m k = Some r \<and> metric_history m k' = Some r \<longrightarrow> k = k'))"

text \<open>A list object that no history key refers to.\<close>

definition unshared :: "metrics_service \<Rightarrow> nat \<Rightarrow> bool" where
  "unshared m r = (r < next_ref m \<and> (\<forall>k. metric_history m k \<noteq> Some r))"

text \<open>The trim of \<open>_store_in_history\<close> on its own, and the references it works with.\<close>

definition trim :: "int \<Rightarrow> 'a list \<Rightarrow> 'a list" where
  "trim n xs = (if int (length xs) > n then slice_from (- n) xs else xs)"

definition key_ref :: "metrics_service \<Rightarrow> string \<Rightarrow> nat" where
  "key_ref m key = (case metric_history m key of Some r \<Rightarrow> r | None \<Rightarrow> next_ref m)"

definition free_ref :: "metrics_service \<Rightarrow> string \<Rightarrow> nat" where
  "free_ref m key = (case metric_history m key of Some r \<Rightarrow> next_ref m | None \<Rightarrow> Suc (next_ref m))"

text \<open>
  A scenario for the cache: every remote command succeeds and prints \<open>10\<close>, and
  \<open>warm_service\<close> is a new service with the default time to live of 60 s after one call
  of \<open>get_system_metrics\<close> for \<open>hostA\<close> at time 0.
\<close>

definition sample_execute :: "string \<Rightarrow> string \<Rightarrow> exn + cmd_result" where
  "sample_execute server_name command = Inr \<lparr>exit_code = 0, output' = ''10'', error = ''''\<rparr>"

definition sample_metrics :: metrics where
  "sample_metrics = [(''cpu'', Num 10), (''memory'', Num 10), (''disk'', Num 10), (''load'', Num 10)]"

definition lookup_at :: "int \<Rightarrow> metrics_service \<Rightarrow> (exn + metrics) \<times> metrics_service" where
  "lookup_at now m = get_system_metrics sample_execute (\<lambda>s. s) (\<lambda>s. Some 10) ''hostA'' now now now m"

definition warm_service :: metrics_service where
  "warm_service = snd (lookup_at 0 (new_metrics_service 60))"

section \<open>Properties of the pool\<close>

lemma idle_update [simp]:
  "idle (p\<lparr>connections := AList.update k v (connections p)\<rparr>) k' = (if k' = k then v else idle p k')"
  by (simp add: idle_def update_conv')

lemma idle_delete [simp]:
  "idle (p\<lparr>connections := AList.delete k (connections p)\<rparr>) k' = (if k' = k then [] else idle p k')"
  by (simp add: idle_def delete_conv')

lemma idle_closed_upd [simp]: "idle (p\<lparr>closed := x\<rparr>) k = idle p k"
  by (simp add: idle_def)

lemma idle_None: "map_of (connections p) k = None \<Longrightarrow> idle p k = []"
  by (simp add: idle_def)

lemma idle_Some: "map_of (connections p) k = Some l \<Longrightarrow> idle p k = l"
  by (simp add: idle_def)

lemma new_pool_simps [simp]:
  "max_connections (new_pool n) = n"
  "connections (new_pool n) = []"
  "closed (new_pool n) = []"
  by (simp_all add: new_pool_def)

lemma idle_new_pool [simp]: "idle (new_pool n) k = []"
  by (simp add: idle_def)

subsection \<open>Release and the \<open>finally\<close> block\<close>

lemma release_idle:
  "idle (release s c now p) k =
     (if k = s \<and> int (length (idle p s)) < max_connections p then idle p s @ [(c, now)] else idle p k)"
  by (auto simp: release_def Let_def idle_None)

lemma release_closed:
  "closed (release s c now p) =
     (if int (length (idle p s)) < max_connections p then closed p else closed p @ [c])"
  by (auto simp: release_def Let_def idle_None)

lemma release_max [simp]: "max_connections (release s c now p) = max_connections p"
  by (simp add: release_def Let_def)

lemma release_meets_spec: "release_spec s c now p (release s c now p)"
  by (simp add: release_spec_def release_idle release_closed)

lemma finally_close_simps [simp]:
  "connections (finally_close c p) = connections p"
  "closed (finally_close c p) = closed p @ [c]"
  "max_connections (finally_close c p) = max_connections p"
  "idle (finally_close c p) k = idle p k"
  by (simp_all add: finally_close_def idle_def)

subsection \<open>Acquire\<close>

lemma acquire_idle:
  "idle (snd (acquire s alive cf p)) k = (if k = s then butlast (idle p s) else idle p k)"
  by (auto simp: acquire_def Let_def idle_None idle_Some split: option.splits)

lemma acquire_closed [simp]: "closed (snd (acquire s alive cf p)) = closed p"
  by (auto simp: acquire_def Let_def split: option.splits)

lemma acquire_max [simp]: "max_connections (snd (acquire s alive cf p)) = max_connections p"
  by (auto simp: acquire_def Let_def split: option.splits)

lemma acquire_result:
  "fst (acquire s alive cf p) =
     (if idle p s \<noteq> [] \<and> alive (fst (last (idle p s))) then Inr (fst (last (idle p s))) else cf)"
  by (auto simp: acquire_def Let_def idle_None idle_Some split: option.splits)

subsection \<open>The reaper\<close>

lemma cleanup_server_idle:
  "idle (cleanup_server ct mi s p) k =
     (if k = s then filter (\<lambda>e. \<not> idle_too_long ct mi e) (idle p s) else idle p k)"
  by (auto simp: cleanup_server_def Let_def idle_too_long_def idle_None idle_Some split: option.splits)

lemma cleanup_server_max [simp]: "max_connections (cleanup_server ct mi s p) = max_connections p"
  by (auto simp: cleanup_server_def Let_def split: option.splits)

lemma cleanup_fold_idle:
  "idle (fold (cleanup_server ct mi) ks p) k =
     (if k \<in> set ks then filter (\<lambda>e. \<not> idle_too_long ct mi e) (idle p k) else idle p k)"
  by (induction ks arbitrary: p) (auto simp: cleanup_server_idle)

lemma cleanup_fold_max [simp]: "max_connections (fold (cleanup_server ct mi) ks p) = max_connections p"
  by (induction ks arbitrary: p) auto

lemma cleanup_idle:
  "idle (cleanup_idle_connections ct mi p) k = filter (\<lambda>e. \<not> idle_too_long ct mi e) (idle p k)"
proof (cases "k \<in> fst ` set (connections p)")
  case True
  then show ?thesis by (simp add: cleanup_idle_connections_def cleanup_fold_idle)
next
  case False
  then have "map_of (connections p) k = None" by (simp add: map_of_eq_None_iff)
  then have "idle p k = []" by (rule idle_None)
  then show ?thesis by (simp add: cleanup_idle_connections_def cleanup_fold_idle)
qed

lemma cleanup_max [simp]: "max_connections (cleanup_idle_connections ct mi p) = max_connections p"
  by (simp add: cleanup_idle_connections_def)

subsection \<open>Steps and runs\<close>

lemma pool_step_max [simp]: "max_connections (pool_step op p) = max_connections p"
  by (cases op) simp_all

lemma pool_run_max [simp]: "max_connections (pool_run ops p) = max_connections p"
  unfolding pool_run_def by (induction ops arbitrary: p) simp_all

lemma pool_step_idle_length:
  assumes "int (length (idle p k)) \<le> max_connections p"
  shows "int (length (idle (pool_step op p) k)) \<le> max_connections p"
proof (cases op)
  case (Acquire s alive cf)
  have "int (length (butlast (idle p k))) \<le> int (length (idle p k))" by simp
  also note assms
  finally show ?thesis using Acquire assms by (auto simp: acquire_idle simp del: length_butlast)
next
  case (Release s c now)
  with assms show ?thesis by (simp add: release_idle)
next
  case (FinallyClose c)
  with assms show ?thesis by simp
next
  case (Cleanup ct mi)
  have "int (length (filter (\<lambda>e. \<not> idle_too_long ct mi e) (idle p k))) \<le> int (length (idle p k))"
    by simp
  also note assms
  finally show ?thesis using Cleanup by (simp add: cleanup_idle)
qed

lemma pool_bounded_idle:
  "0 \<le> max_connections p \<Longrightarrow> pool_bounded p = (\<forall>k. int (length (idle p k)) \<le> max_connections p)"
  unfolding pool_bounded_def idle_def
  by (auto split: option.splits)

lemma pool_step_bounded:
  assumes "0 \<le> max_connections p" and "pool_bounded p"
  shows "pool_bounded (pool_step op p)"
  using assms by (simp add: pool_bounded_idle pool_step_idle_length)

lemma pool_run_bounded:
  assumes "0 \<le> max_connections p" and "pool_bounded p"
  shows "pool_bounded (pool_run ops p)"
  using assms unfolding pool_run_def
  by (induction ops arbitrary: p) (simp_all add: pool_step_bounded)

lemma pool_step_handles_key:
  assumes "\<forall>k. c \<notin> fst ` set (idle p k)" and "\<not> releases c op"
  shows "c \<notin> fst ` set (idle (pool_step op p) k)"
proof (cases op)
  case (Acquire s alive cf)
  with assms(1) show ?thesis by (auto simp: acquire_idle dest: in_set_butlastD)
next
  case (Release s c' now)
  with assms(2) have "c' \<noteq> c" by simp
  with assms(1) Release show ?thesis by (auto simp: release_idle)
next
  case (FinallyClose c')
  with assms(1) show ?thesis by simp
next
  case (Cleanup ct mi)
  with assms(1) show ?thesis by (auto simp: cleanup_idle)
qed

lemma idle_not_key: "k \<notin> fst ` set (connections p) \<Longrightarrow> idle p k = []"
  by (rule idle_None) (simp add: map_of_eq_None_iff)

lemma pool_handles_iff: "c \<notin> pool_handles p \<longleftrightarrow> (\<forall>k. c \<notin> fst ` set (idle p k))"
proof
  assume a: "c \<notin> pool_handles p"
  show "\<forall>k. c \<notin> fst ` set (idle p k)"
  proof
    fix k
    show "c \<notin> fst ` set (idle p k)"
    proof (cases "k \<in> fst ` set (connections p)")
      case True
      with a show ?thesis by (auto simp: pool_handles_def)
    next
      case False
      then show ?thesis by (simp add: idle_not_key)
    qed
  qed
next
  assume "\<forall>k. c \<notin> fst ` set (idle p k)"
  then show "c \<notin> pool_handles p" by (auto simp: pool_handles_def)
qed

lemma pool_step_handles:
  assumes "c \<notin> pool_handles p" and "\<not> releases c op"
  shows "c \<notin> pool_handles (pool_step op p)"
  using assms pool_step_handles_key [of c p op] by (simp add: pool_handles_iff)

lemma pool_run_handles:
  assumes "c \<notin> pool_handles p" and "\<forall>op \<in> set ops. \<not> releases c op"
  shows "c \<notin> pool_handles (pool_run ops p)"
  using assms unfolding pool_run_def
  by (induction ops arbitrary: p) (simp_all add: pool_step_handles)

lemma acquire_popped_absent:
  assumes "pool_distinct p" and "idle p s \<noteq> []"
  shows "fst (last (idle p s)) \<notin> pool_handles (snd (acquire s alive cf p))"
proof -
  let ?c = "fst (last (idle p s))"
  from assms(2) have split: "idle p s = butlast (idle p s) @ [last (idle p s)]" by simp
  from assms(1) have "distinct (map fst (idle p s))" by (simp add: pool_distinct_def)
  then have "distinct (map fst (butlast (idle p s) @ [last (idle p s)]))" using split by simp
  then have here: "?c \<notin> fst ` set (butlast (idle p s))" by simp
  have "last (idle p s) \<in> set (idle p s)" using assms(2) by simp
  then have mem: "?c \<in> fst ` set (idle p s)" by (rule imageI)
  have other: "?c \<notin> fst ` set (idle p k)" if "k \<noteq> s" for k
  proof -
    from assms(1) that have "fst ` set (idle p s) \<inter> fst ` set (idle p k) = {}"
      by (simp add: pool_distinct_def)
    with mem show ?thesis by blast
  qed
  show ?thesis
    unfolding pool_handles_iff
    using here other by (simp add: acquire_idle)
qed



subsection \<open>No handle twice in the pool\<close>

lemma pool_distinct_new [simp]: "pool_distinct (new_pool n)"
  by (simp add: pool_distinct_def)

lemma distinct_map_filter_fst: "distinct (map fst xs) \<Longrightarrow> distinct (map fst (filter P xs))"
  by (rule distinct_map_filter)

lemma distinct_map_butlast_fst: "distinct (map fst xs) \<Longrightarrow> distinct (map fst (butlast xs))"
proof -
  assume "distinct (map fst xs)"
  then have "distinct (butlast (map fst xs))" by (rule distinct_butlast)
  then show ?thesis by (simp add: map_butlast)
qed

lemma pool_step_distinct:
  assumes "pool_distinct p"
    and "case op of Release s c now \<Rightarrow> c \<notin> pool_handles p | _ \<Rightarrow> True"
  shows "pool_distinct (pool_step op p)"
proof (cases op)
  case (Acquire s alive cf)
  have sub: "fst ` set (idle (pool_step op p) k) \<subseteq> fst ` set (idle p k)" for k
    using Acquire by (auto simp: acquire_idle dest: in_set_butlastD)
  have d: "distinct (map fst (idle (pool_step op p) k))" for k
    using assms(1) Acquire by (simp add: acquire_idle pool_distinct_def distinct_map_butlast_fst)
  show ?thesis
    unfolding pool_distinct_def
  proof (intro conjI allI impI)
    fix k show "distinct (map fst (idle (pool_step op p) k))" by (rule d)
  next
    fix k k' :: string assume "k \<noteq> k'"
    with assms(1) have "fst ` set (idle p k) \<inter> fst ` set (idle p k') = {}"
      by (simp add: pool_distinct_def)
    with sub [of k] sub [of k'] show "fst ` set (idle (pool_step op p) k) \<inter> fst ` set (idle (pool_step op p) k') = {}"
      by blast
  qed
next
  case (Release s c now)
  with assms(2) have fresh: "\<forall>k. c \<notin> fst ` set (idle p k)" by (simp add: pool_handles_iff)
  show ?thesis
    unfolding pool_distinct_def
  proof (intro conjI allI impI)
    fix k
    from assms(1) have "distinct (map fst (idle p k))" by (simp add: pool_distinct_def)
    with fresh show "distinct (map fst (idle (pool_step op p) k))"
      using Release by (auto simp: release_idle)
  next
    fix k k' :: string assume ne: "k \<noteq> k'"
    with assms(1) have "fst ` set (idle p k) \<inter> fst ` set (idle p k') = {}"
      by (simp add: pool_distinct_def)
    with fresh ne show "fst ` set (idle (pool_step op p) k) \<inter> fst ` set (idle (pool_step op p) k') = {}"
      using Release by (auto simp: release_idle)
  qed
next
  case (FinallyClose c)
  with assms(1) show ?thesis by (simp add: pool_distinct_def)
next
  case (Cleanup ct mi)
  have sub: "fst ` set (idle (pool_step op p) k) \<subseteq> fst ` set (idle p k)" for k
    using Cleanup by (auto simp: cleanup_idle)
  show ?thesis
    unfolding pool_distinct_def
  proof (intro conjI allI impI)
    fix k
    from assms(1) have "distinct (map fst (idle p k))" by (simp add: pool_distinct_def)
    then show "distinct (map fst (idle (pool_step op p) k))"
      using Cleanup by (simp add: cleanup_idle distinct_map_filter_fst)
  next
    fix k k' :: string assume "k \<noteq> k'"
    with assms(1) have "fst ` set (idle p k) \<inter> fst ` set (idle p k') = {}"
      by (simp add: pool_distinct_def)
    with sub [of k] sub [of k'] show "fst ` set (idle (pool_step op p) k) \<inter> fst ` set (idle (pool_step op p) k') = {}"
      by blast
  qed
qed

lemma pool_run_distinct:
  assumes "pool_distinct p" and "disciplined ops p"
  shows "pool_distinct (pool_run ops p)"
  using assms unfolding pool_run_def
  by (induction ops arbitrary: p) (simp_all add: pool_step_distinct)

lemma pool_bounded_new [simp]: "pool_bounded (new_pool n)"
  by (simp add: pool_bounded_def)


subsection \<open>The scoped lease\<close>

lemma count_list_append: "count_list (xs @ ys) c = count_list xs c + count_list ys c"
  by (induction xs) simp_all

lemma release_counts:
  "times_closed (release s c now p) c + times_idle (release s c now p) s c =
   times_closed p c + times_idle p s c + 1"
  by (simp add: times_closed_def times_idle_def release_idle release_closed count_list_append)

lemma finally_close_counts:
  "times_closed (finally_close c p) c + times_idle (finally_close c p) s c =
   times_closed p c + times_idle p s c + 1"
  by (simp add: times_closed_def times_idle_def count_list_append)

text \<open>
  C1, as stated, fails on the code. With an empty pool of capacity 10, a lease of handle 7
  whose \<open>with\<close> body raises ends with handle 7 closed and the idle list of the target
  still empty, where the stated rule (fewer than 10 idle entries: push back) asks for it
  to be returned.
\<close>

theorem lease_exception_counterexample:
  "\<not> release_spec ''hostA'' 7 5 (new_pool 10)
       (snd (get_connection ''hostA'' (\<lambda>c. True) (Inr 7)
               (\<lambda>c p. (Inl (Exn ''boom'') :: exn + unit, p)) 5 (new_pool 10)))"
  by (simp add: get_connection_def acquire_def release_spec_def)

text \<open>
  C1, amended. For every target and every use of the lease handed out by \<open>acquire\<close>:
  when the caller's scope ends normally, the release rule of the specification applies
  (the connection is appended to the idle list of the target if that list holds fewer
  than \<open>max_connections\<close> entries, and closed otherwise); when the scope ends by an
  exception, the connection is closed and the pool map is left as it is. On both paths
  the caller's outcome is passed on, and exactly one of the two actions happens, once:
  the number of times the connection was closed plus the number of times it sits in the
  idle list of the target grows by exactly one.
\<close>

theorem lease_released_exactly_once:
  assumes "acquire s alive cf p = (Inr c, p1)" and "body c p1 = (r, p2)"
  shows "fst (get_connection s alive cf body now p) = r \<and>
         (case r of
            Inr v \<Rightarrow> release_spec s c now p2 (snd (get_connection s alive cf body now p))
          | Inl e \<Rightarrow> connections (snd (get_connection s alive cf body now p)) = connections p2 \<and>
                     closed (snd (get_connection s alive cf body now p)) = closed p2 @ [c]) \<and>
         times_closed (snd (get_connection s alive cf body now p)) c +
           times_idle (snd (get_connection s alive cf body now p)) s c =
         times_closed p2 c + times_idle p2 s c + 1"
proof (cases r)
  case (Inl e)
  with assms have "get_connection s alive cf body now p = (Inl e, finally_close c p2)"
    by (simp add: get_connection_def)
  with Inl show ?thesis by (simp add: finally_close_counts)
next
  case (Inr v)
  with assms have "get_connection s alive cf body now p = (Inr v, release s c now p2)"
    by (simp add: get_connection_def)
  with Inr show ?thesis by (simp add: release_meets_spec release_counts)
qed

theorem lease_released_exactly_once_witness:
  "acquire ''hostA'' (\<lambda>c. True) (Inr 7) (new_pool 10) = (Inr 7, new_pool 10) \<and>
   (\<lambda>c p. (Inl (Exn ''boom'') :: exn + unit, p)) 7 (new_pool 10) = (Inl (Exn ''boom''), new_pool 10) \<and>
   closed (snd (get_connection ''hostA'' (\<lambda>c. True) (Inr 7)
                  (\<lambda>c p. (Inl (Exn ''boom'') :: exn + unit, p)) 5 (new_pool 10))) = [7] \<and>
   times_closed (snd (get_connection ''hostA'' (\<lambda>c. True) (Inr 7)
                  (\<lambda>c p. (Inl (Exn ''boom'') :: exn + unit, p)) 5 (new_pool 10))) 7 = 1"
proof -
  have a: "acquire ''hostA'' (\<lambda>c. True) (Inr 7) (new_pool 10) = (Inr 7, new_pool 10)"
    by (simp add: acquire_def)
  from lease_released_exactly_once
         [where s = "''hostA''" and alive = "\<lambda>c. True" and cf = "Inr 7" and p = "new_pool 10"
            and c = 7 and ?p1.0 = "new_pool 10"
            and body = "\<lambda>c p. (Inl (Exn ''boom'') :: exn + unit, p)"
            and r = "Inl (Exn ''boom'')" and ?p2.0 = "new_pool 10" and now = 5] a
  show ?thesis
    by (simp add: times_closed_def times_idle_def)
qed

subsection \<open>A dead connection on reuse\<close>

text \<open>
  C6, as stated, fails on the code. The pool holds handle 3 for the target (leased and
  given back at time 0); its probe fails. \<open>acquire\<close> hands out the new handle 4 and
  has not closed handle 3: the code sets \<open>connection = None\<close> and calls no \<open>close()\<close>.
\<close>

theorem acquire_dead_not_closed_counterexample:
  "\<not> 3 \<in> set (closed (snd (acquire ''hostA'' (\<lambda>c. False) (Inr 4)
                            (release ''hostA'' 3 0 (new_pool 10)))))"
  by (simp add: release_closed)

text \<open>
  C6, amended. When \<open>acquire\<close> pops an idle connection whose liveness probe fails, it
  takes that connection off the idle list and falls through to \<open>connect_func\<close>: what
  the caller gets is the outcome of \<open>connect_func\<close> (the new session, or its error), so
  the failed handle is the value returned only if \<open>connect_func\<close> itself hands it out.
\<close>

theorem acquire_dead_falls_through:
  assumes "idle p s \<noteq> []" and "\<not> alive (fst (last (idle p s)))"
  shows "fst (acquire s alive cf p) = cf \<and>
         idle (snd (acquire s alive cf p)) s = butlast (idle p s) \<and>
         ((fst (acquire s alive cf p) = Inr (fst (last (idle p s)))) = (cf = Inr (fst (last (idle p s)))))"
  using assms by (simp add: acquire_result acquire_idle)

theorem acquire_dead_falls_through_witness:
  "idle (release ''hostA'' 3 0 (new_pool 10)) ''hostA'' \<noteq> [] \<and>
   \<not> (\<lambda>c. False) (fst (last (idle (release ''hostA'' 3 0 (new_pool 10)) ''hostA''))) \<and>
   fst (acquire ''hostA'' (\<lambda>c. False) (Inr 4) (release ''hostA'' 3 0 (new_pool 10))) = Inr 4 \<and>
   idle (snd (acquire ''hostA'' (\<lambda>c. False) (Inr 4) (release ''hostA'' 3 0 (new_pool 10)))) ''hostA'' = []"
proof -
  have a: "idle (release ''hostA'' 3 0 (new_pool 10)) ''hostA'' \<noteq> []"
    by (simp add: release_idle)
  have b: "\<not> (\<lambda>c. False) (fst (last (idle (release ''hostA'' 3 0 (new_pool 10)) ''hostA'')))"
    by simp
  from acquire_dead_falls_through [OF a b, of "Inr 4"] a show ?thesis
    by (simp add: release_idle)
qed

subsection \<open>The bound on idle connections\<close>

text \<open>
  C5. A pool is created with a capacity \<open>n \<ge> 0\<close>. After any sequence of acquire,
  release (on either exit path) and reaper operations, no idle list of the dict has more
  than \<open>max_connections\<close> entries. And when, after a sequence that follows the
  discipline of leases, \<open>acquire\<close> pops a connection (the last entry of a non-empty idle
  list), that connection is in no idle list of the pool, and it stays out through every
  further sequence of operations that does not give it back.
\<close>

theorem pool_bounded_and_leased_absent:
  assumes "0 \<le> n"
  shows "pool_bounded (pool_run ops (new_pool n)) \<and>
         (disciplined ops (new_pool n) \<and> idle (pool_run ops (new_pool n)) s \<noteq> [] \<and>
          list_all (\<lambda>op. \<not> releases (fst (last (idle (pool_run ops (new_pool n)) s))) op) ops'
          \<longrightarrow> fst (last (idle (pool_run ops (new_pool n)) s))
                \<notin> pool_handles (pool_run ops' (snd (acquire s alive cf (pool_run ops (new_pool n))))))"
proof
  from assms show "pool_bounded (pool_run ops (new_pool n))"
    by (intro pool_run_bounded) simp_all
next
  let ?p = "pool_run ops (new_pool n)"
  let ?c = "fst (last (idle ?p s))"
  show "disciplined ops (new_pool n) \<and> idle ?p s \<noteq> [] \<and> list_all (\<lambda>op. \<not> releases ?c op) ops'
        \<longrightarrow> ?c \<notin> pool_handles (pool_run ops' (snd (acquire s alive cf ?p)))"
  proof
    assume h: "disciplined ops (new_pool n) \<and> idle ?p s \<noteq> [] \<and> list_all (\<lambda>op. \<not> releases ?c op) ops'"
    then have "pool_distinct ?p" by (intro pool_run_distinct) simp_all
    with h have "?c \<notin> pool_handles (snd (acquire s alive cf ?p))"
      by (intro acquire_popped_absent) simp_all
    moreover from h have "\<forall>op \<in> set ops'. \<not> releases ?c op" by (simp add: list_all_iff)
    ultimately show "?c \<notin> pool_handles (pool_run ops' (snd (acquire s alive cf ?p)))"
      by (rule pool_run_handles)
  qed
qed


theorem pool_bounded_and_leased_absent_witness:
  "(0::int) \<le> 2 \<and>
   disciplined [Acquire ''hostA'' (\<lambda>c. True) (Inr 1), Release ''hostA'' 1 0] (new_pool 2) \<and>
   idle (pool_run [Acquire ''hostA'' (\<lambda>c. True) (Inr 1), Release ''hostA'' 1 0] (new_pool 2)) ''hostA''
     = [(1, 0)] \<and>
   list_all (\<lambda>op. \<not> releases 1 op) [Cleanup 1000 600, Release ''hostA'' 2 1000] \<and>
   pool_bounded (pool_run [Acquire ''hostA'' (\<lambda>c. True) (Inr 1), Release ''hostA'' 1 0] (new_pool 2)) \<and>
   1 \<notin> pool_handles
         (pool_run [Cleanup 1000 600, Release ''hostA'' 2 1000]
            (snd (acquire ''hostA'' (\<lambda>c. True) (Inr 3)
                    (pool_run [Acquire ''hostA'' (\<lambda>c. True) (Inr 1), Release ''hostA'' 1 0] (new_pool 2)))))"
proof -
  let ?ops = "[Acquire ''hostA'' (\<lambda>c. True) (Inr 1), Release ''hostA'' 1 0]"
  let ?ops' = "[Cleanup 1000 600, Release ''hostA'' 2 1000]"
  have d: "disciplined ?ops (new_pool 2)"
    by (simp add: pool_handles_iff acquire_idle)
  have i: "idle (pool_run ?ops (new_pool 2)) ''hostA'' = [(1, 0)]"
    by (simp add: pool_run_def release_idle acquire_idle)
  have r: "list_all (\<lambda>op. \<not> releases 1 op) ?ops'"
    by simp
  from pool_bounded_and_leased_absent [of 2 ?ops "''hostA''" ?ops' "\<lambda>c. True" "Inr 3"] d i r
  show ?thesis by simp
qed

section \<open>Properties of the event hub\<close>

lemma td_seconds_example: "td_seconds 86410000000 = 10"
  by (simp add: td_seconds_def)

subsection \<open>What each operation does to the observations\<close>

lemma new_hub_observations [simp]:
  "registered (new_hub i) c = False"
  "subscriptions_of (new_hub i) c = {}"
  "subscribers (new_hub i) e = {}"
  "queue_of (new_hub i) c = []"
  by (simp_all add: new_hub_def registered_def subscriptions_of_def subscribers_def queue_of_def)

lemma registered_Some: "map_of (clients h) c = Some cl \<Longrightarrow> registered h c"
  by (simp add: registered_def)

lemma not_registered_None: "\<not> registered h c \<Longrightarrow> map_of (clients h) c = None"
  by (simp add: registered_def)



lemma subscribe_registered [simp]: "registered (subscribe c e h) c' = registered h c'"
  by (auto simp: subscribe_def registered_def update_conv' split: option.splits)

lemma subscribe_subscriptions:
  "subscriptions_of (subscribe c e h) c' =
     (if c' = c \<and> registered h c then insert e (subscriptions_of h c) else subscriptions_of h c')"
  by (auto simp: subscribe_def registered_def subscriptions_of_def update_conv' split: option.splits)

lemma subscribe_subscribers:
  "subscribers (subscribe c e h) e' =
     (if e' = e \<and> registered h c then insert c (subscribers h e) else subscribers h e')"
  by (auto simp: subscribe_def registered_def subscribers_def split: option.splits)

lemma subscribe_queue [simp]: "queue_of (subscribe c e h) c' = queue_of h c'"
  by (auto simp: subscribe_def queue_of_def update_conv' split: option.splits)

lemma unsubscribe_registered [simp]: "registered (unsubscribe c e h) c' = registered h c'"
  by (auto simp: unsubscribe_def registered_def update_conv' split: option.splits)

lemma unsubscribe_subscriptions:
  "subscriptions_of (unsubscribe c e h) c' =
     (if c' = c then subscriptions_of h c - {e} else subscriptions_of h c')"
  by (auto simp: unsubscribe_def subscriptions_of_def update_conv' split: option.splits)

lemma unsubscribe_subscribers:
  "subscribers (unsubscribe c e h) e' =
     (if e' = e \<and> registered h c then subscribers h e - {c} else subscribers h e')"
  by (auto simp: unsubscribe_def registered_def subscribers_def split: option.splits)

lemma remove_client_registered:
  "registered (remove_client c h) c' = (c' \<noteq> c \<and> registered h c')"
  by (auto simp: remove_client_def registered_def delete_conv' split: option.splits)



lemma remove_client_ping [simp]: "ping_interval (remove_client c h) = ping_interval h"
  by (auto simp: remove_client_def split: option.splits)

lemma send_registered [simp]: "registered (send_to_client c m h) c' = registered h c'"
  by (auto simp: send_to_client_def registered_def update_conv' split: option.splits)

lemma send_subscriptions [simp]: "subscriptions_of (send_to_client c m h) c' = subscriptions_of h c'"
  by (auto simp: send_to_client_def subscriptions_of_def update_conv' split: option.splits)

lemma send_handlers [simp]: "event_handlers (send_to_client c m h) = event_handlers h"
  by (auto simp: send_to_client_def split: option.splits)

lemma send_subscribers [simp]: "subscribers (send_to_client c m h) e = subscribers h e"
  by (simp add: subscribers_def)

lemma send_queue:
  "queue_of (send_to_client c m h) c' =
     (if c' = c \<and> registered h c then queue_of h c @ [Some m] else queue_of h c')"
  by (auto simp: send_to_client_def registered_def queue_of_def update_conv' split: option.splits)

subsection \<open>The bidirectional invariant\<close>

lemma hub_inv_new [simp]: "hub_inv (new_hub i)"
  by (simp add: hub_inv_def new_hub_def subscribers_def registered_def)






lemma register_registered:
  "registered (snd (register_client w now h)) c = (c = w \<or> registered h c)"
  by (auto simp: register_client_def registered_def update_conv')

lemma register_subscriptions:
  "subscriptions_of (snd (register_client w now h)) c = (if c = w then {} else subscriptions_of h c)"
  by (auto simp: register_client_def subscriptions_of_def update_conv')

lemma register_subscribers [simp]: "subscribers (snd (register_client w now h)) e = subscribers h e"
  by (simp add: register_client_def subscribers_def)

lemma register_queue:
  "queue_of (snd (register_client w now h)) c = (if c = w then [] else queue_of h c)"
  by (auto simp: register_client_def queue_of_def update_conv')


lemma queue_update_observations:
  assumes "map_of (clients h) c = Some client"
  shows "registered (h\<lparr>clients := AList.update c (client\<lparr>message_queue := q\<rparr>) (clients h)\<rparr>) c'
           = registered h c'"
    and "subscriptions_of (h\<lparr>clients := AList.update c (client\<lparr>message_queue := q\<rparr>) (clients h)\<rparr>) c'
           = subscriptions_of h c'"
    and "subscribers (h\<lparr>clients := AList.update c (client\<lparr>message_queue := q\<rparr>) (clients h)\<rparr>) e
           = subscribers h e"
  using assms
  by (auto simp: registered_def subscriptions_of_def subscribers_def update_conv')



lemma unregister_registered: "registered (unregister_client c h) c' = (c' \<noteq> c \<and> registered h c')"
proof (cases "map_of (clients h) c")
  case None
  then show ?thesis by (auto simp: unregister_client_def registered_def)
next
  case (Some client)
  then show ?thesis
    by (simp add: unregister_client_def remove_client_registered queue_update_observations)
qed







subsection \<open>The loops over Python sets\<close>

lemma discard_fold_apply:
  "fold (discard_handler c) order handlers e =
     (if e \<in> set order
      then (case handlers e of None \<Rightarrow> None | Some s \<Rightarrow> Some (s - {c}))
      else handlers e)"
proof (induction order arbitrary: handlers)
  case Nil
  show ?case by simp
next
  case (Cons x order)
  have "fold (discard_handler c) (x # order) handlers e =
        fold (discard_handler c) order (discard_handler c x handlers) e"
    by simp
  also have "\<dots> = (if e \<in> set order
                   then (case discard_handler c x handlers e of None \<Rightarrow> None | Some s \<Rightarrow> Some (s - {c}))
                   else discard_handler c x handlers e)"
    by (rule Cons.IH)
  also have "\<dots> = (if e \<in> set (x # order)
                   then (case handlers e of None \<Rightarrow> None | Some s \<Rightarrow> Some (s - {c}))
                   else handlers e)"
    by (auto simp: discard_handler_def split: option.splits)
  finally show ?case .
qed

lemma discard_loop_pointwise:
  "discard_loop c order handlers =
     (\<lambda>event_type.
        if event_type \<in> set order
        then (case handlers event_type of None \<Rightarrow> None | Some s \<Rightarrow> Some (s - {c}))
        else handlers event_type)"
  unfolding discard_loop_def by (rule ext) (rule discard_fold_apply)

lemma remove_client_as_loop:
  assumes "map_of (clients h) c = Some client" and "set order = subscriptions client"
  shows "remove_client c h =
           h\<lparr>event_handlers := discard_loop c order (event_handlers h),
             clients := AList.delete c (clients h)\<rparr>"
  using assms by (simp add: remove_client_def discard_loop_pointwise)

lemma send_fold_registered [simp]:
  "registered (fold (\<lambda>c. send_to_client c m) order h) c' = registered h c'"
  by (induction order arbitrary: h) simp_all

lemma send_fold_handlers [simp]:
  "event_handlers (fold (\<lambda>c. send_to_client c m) order h) = event_handlers h"
  by (induction order arbitrary: h) simp_all

lemma send_fold_queue:
  "distinct order \<Longrightarrow>
   queue_of (fold (\<lambda>c. send_to_client c m) order h) c' =
     (if c' \<in> set order \<and> registered h c' then queue_of h c' @ [Some m] else queue_of h c')"
  by (induction order arbitrary: h) (auto simp: send_queue)

lemma broadcast_queue:
  assumes "iteration_of order (subscribers h e)"
  shows "queue_of (broadcast_event order e d now h) c =
           (if c \<in> subscribers h e \<and> registered h c
            then queue_of h c @ [Some (Event e d now)] else queue_of h c)"
proof (cases "event_handlers h e")
  case None
  then show ?thesis by (simp add: broadcast_event_def subscribers_def)
next
  case (Some s)
  with assms have "distinct order" and "set order = subscribers h e"
    by (simp_all add: iteration_of_def)
  with Some show ?thesis by (simp add: broadcast_event_def send_fold_queue)
qed

lemma broadcast_registered [simp]: "registered (broadcast_event order e d now h) c = registered h c"
  by (simp add: broadcast_event_def Let_def split: option.splits)

lemma broadcast_subscribers [simp]: "subscribers (broadcast_event order e d now h) e' = subscribers h e'"
  by (simp add: broadcast_event_def Let_def subscribers_def split: option.splits)

subsection \<open>The delivery loop\<close>

lemma message_worker_written:
  "fst (message_worker send_ok c q h) =
     filter send_ok (map the (takeWhile (\<lambda>x. x \<noteq> None) q))"
  by (induction send_ok c q h rule: message_worker.induct) (auto split: prod.splits)


lemma takeWhile_two_more:
  "takeWhile (\<lambda>x. x \<noteq> None) (q @ [Some a, Some b]) =
     (if None \<in> set q then takeWhile (\<lambda>x. x \<noteq> None) q else q @ [Some a, Some b])"
  by (induction q) auto

subsection \<open>Broadcast and per-client order\<close>

text \<open>
  C3. Two distinct registered clients are both subscribed to event type \<open>e\<close>. A
  broadcast of \<open>e\<close> appends its message \<open>{type, data, timestamp}\<close> to the queue of each
  of them, in whatever order the subscriber set is iterated. For one client, a second
  broadcast (of an event type \<open>e2\<close> it is subscribed to) lands behind the first in its
  queue, and the delivery loop writes the queue to the transport from the head on, up to
  the shutdown signal, skipping only messages whose write fails: the first broadcast is
  written before the second. Nothing relates the queues of different clients.
\<close>

theorem broadcast_reaches_both_in_order:
  assumes "c1 \<noteq> c2" and "registered h c1" and "registered h c2"
    and "c1 \<in> subscribers h e" and "c2 \<in> subscribers h e"
    and "iteration_of order (subscribers h e)"
    and "c1 \<in> subscribers h e2" and "iteration_of order2 (subscribers h e2)"
  shows "queue_of (broadcast_event order e d now h) c1 = queue_of h c1 @ [Some (Event e d now)] \<and>
         queue_of (broadcast_event order e d now h) c2 = queue_of h c2 @ [Some (Event e d now)] \<and>
         queue_of (broadcast_event order2 e2 d2 now2 (broadcast_event order e d now h)) c1 =
           queue_of h c1 @ [Some (Event e d now), Some (Event e2 d2 now2)] \<and>
         fst (message_worker send_ok c1
                (queue_of (broadcast_event order2 e2 d2 now2 (broadcast_event order e d now h)) c1) h') =
           (if None \<in> set (queue_of h c1)
            then filter send_ok (map the (takeWhile (\<lambda>x. x \<noteq> None) (queue_of h c1)))
            else filter send_ok (map the (queue_of h c1)) @ filter send_ok [Event e d now, Event e2 d2 now2])"
proof -
  let ?hA = "broadcast_event order e d now h"
  have q1: "queue_of ?hA c1 = queue_of h c1 @ [Some (Event e d now)]"
    using assms by (simp add: broadcast_queue)
  have q2: "queue_of ?hA c2 = queue_of h c2 @ [Some (Event e d now)]"
    using assms by (simp add: broadcast_queue)
  have "iteration_of order2 (subscribers ?hA e2)" using assms(8) by simp
  then have "queue_of (broadcast_event order2 e2 d2 now2 ?hA) c1 =
               queue_of ?hA c1 @ [Some (Event e2 d2 now2)]"
    using assms by (simp add: broadcast_queue)
  with q1 have q3: "queue_of (broadcast_event order2 e2 d2 now2 ?hA) c1 =
               queue_of h c1 @ [Some (Event e d now), Some (Event e2 d2 now2)]"
    by simp
  show ?thesis
    unfolding q3 message_worker_written takeWhile_two_more
    using q1 q2 by simp
qed

theorem broadcast_reaches_both_in_order_witness:
  "(1::nat) \<noteq> 2 \<and>
   registered (subscribe 2 ''cpu'' (subscribe 1 ''cpu''
      (snd (register_client 2 0 (snd (register_client 1 0 (new_hub 30 :: string hub))))))) 1 \<and>
   iteration_of [2, 1] (subscribers (subscribe 2 ''cpu'' (subscribe 1 ''cpu''
      (snd (register_client 2 0 (snd (register_client 1 0 (new_hub 30 :: string hub))))))) ''cpu'') \<and>
   queue_of (broadcast_event [2, 1] ''cpu'' ''a'' 7 (subscribe 2 ''cpu'' (subscribe 1 ''cpu''
      (snd (register_client 2 0 (snd (register_client 1 0 (new_hub 30 :: string hub)))))))) 2
     = [Some (Event ''cpu'' ''a'' 7)] \<and>
   fst (message_worker (\<lambda>m. True) 1
          (queue_of (broadcast_event [1, 2] ''cpu'' ''b'' 8 (broadcast_event [2, 1] ''cpu'' ''a'' 7
             (subscribe 2 ''cpu'' (subscribe 1 ''cpu''
                (snd (register_client 2 0 (snd (register_client 1 0 (new_hub 30 :: string hub))))))))) 1)
          (new_hub 30))
     = [Event ''cpu'' ''a'' 7, Event ''cpu'' ''b'' 8]"
proof -
  let ?h = "subscribe 2 ''cpu'' (subscribe 1 ''cpu''
      (snd (register_client 2 0 (snd (register_client 1 0 (new_hub 30 :: string hub))))))"
  have r1: "registered ?h 1" and r2: "registered ?h 2"
    by (simp_all add: register_registered)
  have s1: "1 \<in> subscribers ?h ''cpu''" and s2: "2 \<in> subscribers ?h ''cpu''"
    by (simp_all add: subscribe_subscribers register_registered)
  have i1: "iteration_of [2, 1] (subscribers ?h ''cpu'')" and i2: "iteration_of [1, 2] (subscribers ?h ''cpu'')"
    by (auto simp: subscribe_subscribers register_registered iteration_of_def)
  have q: "queue_of ?h 1 = []" "queue_of ?h 2 = []"
    by (simp_all add: register_queue)
  have ne: "(1::nat) \<noteq> 2" by simp
  from broadcast_reaches_both_in_order
         [OF ne r1 r2 s1 s2 i1 s1 i2, of "''a''" 7 "''b''" 8 "\<lambda>m. True" "new_hub 30"]
       r1 i1 q
  show ?thesis by simp
qed

subsection \<open>The invariant under the operations\<close>




subsection \<open>The liveness sweep\<close>

text \<open>
  What the sweep does on the code: a client whose last ping is 61 s old (ping interval
  30 s) is removed, from the registry and from the subscriber sets.
\<close>

lemma sweep_removes_after_61_seconds:
  "\<not> registered (check_client_health 61000000
                    (subscribe 1 ''cpu'' (snd (register_client 1 0 (new_hub 30 :: string hub))))) 1 \<and>
   1 \<notin> subscribers (check_client_health 61000000
                    (subscribe 1 ''cpu'' (snd (register_client 1 0 (new_hub 30 :: string hub))))) ''cpu''"
  by (simp add: check_client_health_def check_one_client_def register_client_def new_hub_def
        td_seconds_def registered_def subscribe_def remove_client_def subscribers_def)

text \<open>
  C7 does not hold of the code. The sweep compares \<open>(current_time - last_ping).seconds\<close>,
  the seconds component of the difference, with \<open>2 * ping_interval\<close>. A client whose
  last ping is one day and ten seconds old (ping interval 30 s) has been silent for more
  than 60 s, and the sweep keeps it; so it does a client whose last ping is 60.5 s old.
\<close>

theorem sweep_keeps_silent_client:
  "total_seconds_exceeds (86410000000 - 0) (2 * 30) \<and>
   registered (check_client_health 86410000000 (snd (register_client 1 0 (new_hub 30 :: string hub)))) 1 \<and>
   total_seconds_exceeds (60500000 - 0) (2 * 30) \<and>
   registered (check_client_health 60500000 (snd (register_client 1 0 (new_hub 30 :: string hub)))) 1"
  by (simp add: total_seconds_exceeds_def check_client_health_def check_one_client_def
        register_client_def new_hub_def td_seconds_def registered_def)

subsection \<open>Subscribing and unsubscribing twice, and in a pair\<close>

text \<open>
  C10, as stated, fails on the code: for a client that is already subscribed to the event
  type, \<open>subscribe\<close> followed by \<open>unsubscribe\<close> leaves it unsubscribed.
\<close>

theorem subscribe_unsubscribe_counterexample:
  "\<not> subscriptions_of
        (unsubscribe 1 ''cpu'' (subscribe 1 ''cpu''
           (subscribe 1 ''cpu'' (snd (register_client 1 0 (new_hub 30 :: string hub)))))) 1
      = subscriptions_of (subscribe 1 ''cpu'' (snd (register_client 1 0 (new_hub 30 :: string hub)))) 1"
  by (simp add: unsubscribe_subscriptions subscribe_subscriptions register_registered
        register_subscriptions)

text \<open>
  C10, amended. \<open>subscribe\<close> is idempotent and \<open>unsubscribe\<close> is idempotent: doing either
  twice leaves the whole hub state as doing it once. \<open>subscribe\<close> immediately followed
  by \<open>unsubscribe\<close> restores the client's subscription set and the subscriber set of the
  event type, provided the client was not subscribed to the event type before the pair.
\<close>

theorem subscribe_unsubscribe_idempotent:
  "subscribe c e (subscribe c e h) = subscribe c e h \<and>
   unsubscribe c e (unsubscribe c e h) = unsubscribe c e h \<and>
   (e \<notin> subscriptions_of h c \<and> c \<notin> subscribers h e \<longrightarrow>
      subscriptions_of (unsubscribe c e (subscribe c e h)) c = subscriptions_of h c \<and>
      subscribers (unsubscribe c e (subscribe c e h)) e = subscribers h e)"
proof (intro conjI impI)
  show "subscribe c e (subscribe c e h) = subscribe c e h"
    by (cases "map_of (clients h) c")
       (simp_all add: subscribe_def update_conv' subscribers_def insert_absorb2)
  show "unsubscribe c e (unsubscribe c e h) = unsubscribe c e h"
    by (cases "map_of (clients h) c"; cases "event_handlers h e")
       (simp_all add: unsubscribe_def update_conv')
next
  assume "e \<notin> subscriptions_of h c \<and> c \<notin> subscribers h e"
  then show "subscriptions_of (unsubscribe c e (subscribe c e h)) c = subscriptions_of h c"
    by (auto simp: unsubscribe_subscriptions subscribe_subscriptions)
next
  assume "e \<notin> subscriptions_of h c \<and> c \<notin> subscribers h e"
  then show "subscribers (unsubscribe c e (subscribe c e h)) e = subscribers h e"
    by (auto simp: unsubscribe_subscribers subscribe_subscribers)
qed

theorem subscribe_unsubscribe_idempotent_witness:
  "''cpu'' \<notin> subscriptions_of (snd (register_client 1 0 (new_hub 30 :: string hub))) 1 \<and>
   1 \<notin> subscribers (snd (register_client 1 0 (new_hub 30 :: string hub))) ''cpu'' \<and>
   subscriptions_of (unsubscribe 1 ''cpu'' (subscribe 1 ''cpu''
      (snd (register_client 1 0 (new_hub 30 :: string hub))))) 1 = {} \<and>
   subscribers (unsubscribe 1 ''cpu'' (subscribe 1 ''cpu''
      (snd (register_client 1 0 (new_hub 30 :: string hub))))) ''cpu'' = {}"
  using subscribe_unsubscribe_idempotent [of 1 "''cpu''" "snd (register_client 1 0 (new_hub 30 :: string hub))"]
  by (simp add: register_subscriptions)

section \<open>Properties of the metrics cache and history\<close>

subsection \<open>Cache lookups\<close>

lemma get_from_cache_hit:
  assumes "cache m key = Some entry" and "td_seconds (now - timestamp entry) \<le> ttl entry"
  shows "get_from_cache key now m = (Some (data entry), m)"
  using assms by (simp add: get_from_cache_def)

lemma get_from_cache_stale:
  assumes "cache m key = Some entry" and "\<not> td_seconds (now - timestamp entry) \<le> ttl entry"
  shows "get_from_cache key now m = (None, m\<lparr>cache := (cache m)(key := None)\<rparr>)"
  using assms by (simp add: get_from_cache_def)

lemma system_metrics_hit:
  assumes "cache m (get_cache_key ''system'' server_name ''{}'') = Some entry"
    and "td_seconds (now - timestamp entry) \<le> ttl entry"
    and "data entry \<noteq> []"
  shows "get_system_metrics exec strip to_float server_name now t2 t3 m = (Inr (data entry), m)"
  using assms by (simp add: get_system_metrics_def get_from_cache_hit truthy_def)


subsection \<open>The history store\<close>

lemma trim_newest: "0 < n \<Longrightarrow> trim (int n) xs = newest n xs"
  by (auto simp: trim_def newest_def slice_from_def Let_def nat_diff_distrib')

lemma length_newest: "length (newest n xs) \<le> n"
  by (simp add: newest_def)

lemma newest_newest_append: "newest n (newest n xs @ ys) = newest n (xs @ ys)"
proof (cases "length xs \<le> n")
  case True
  then show ?thesis by (simp add: newest_def)
next
  case False
  then have "length xs + length ys - (length xs - n + n) + (length xs - n) = length xs + length ys - n"
    by arith
  with False show ?thesis by (simp add: newest_def)
qed

lemma hist_wf_ref: "hist_wf m \<Longrightarrow> metric_history m k = Some r \<Longrightarrow> r < next_ref m"
  by (simp add: hist_wf_def)

lemma hist_wf_inj: "hist_wf m \<Longrightarrow> metric_history m k = Some r \<Longrightarrow> metric_history m k' = Some r \<Longrightarrow> k = k'"
  unfolding hist_wf_def by blast

lemma hist_wfI:
  assumes "\<And>k r. metric_history m k = Some r \<Longrightarrow> r < next_ref m"
    and "\<And>k k' r. metric_history m k = Some r \<Longrightarrow> metric_history m k' = Some r \<Longrightarrow> k = k'"
  shows "hist_wf m"
  unfolding hist_wf_def using assms by blast

lemma store_in_history_fields [simp]:
  "history_max_size (store_in_history mt sn d now m) = history_max_size m"
  "cache (store_in_history mt sn d now m) = cache m"
  "executed (store_in_history mt sn d now m) = executed m"
  "cache_ttl (store_in_history mt sn d now m) = cache_ttl m"
  by (auto simp: store_in_history_def alloc_def Let_def split: option.splits prod.splits)

text \<open>What \<open>_store_in_history\<close> does to the store, written out.\<close>

lemma store_in_history_unfold:
  fixes m mt sn d now
  defines "key \<equiv> history_key mt sn"
  defines "new \<equiv> series m key @ [\<lparr>entry_timestamp = now, entry_data = d\<rparr>]"
  defines "m' \<equiv> store_in_history mt sn d now m"
  shows "metric_history m' =
           (metric_history m)(key \<mapsto> (if int (length new) > history_max_size m
                                        then free_ref m key else key_ref m key))"
    and "lists m' =
           (if int (length new) > history_max_size m
            then ((lists m)(key_ref m key := new))
                   (free_ref m key := slice_from (- history_max_size m) new)
            else (lists m)(key_ref m key := new))"
    and "next_ref m' =
           (if int (length new) > history_max_size m then Suc (free_ref m key) else free_ref m key)"
proof -
  show "metric_history m' =
           (metric_history m)(key \<mapsto> (if int (length new) > history_max_size m
                                        then free_ref m key else key_ref m key))"
    unfolding m'_def new_def key_def
    by (cases "metric_history m (history_key mt sn)")
       (auto simp: store_in_history_def alloc_def Let_def series_def key_ref_def free_ref_def)
  show "lists m' =
           (if int (length new) > history_max_size m
            then ((lists m)(key_ref m key := new))
                   (free_ref m key := slice_from (- history_max_size m) new)
            else (lists m)(key_ref m key := new))"
    unfolding m'_def new_def key_def
    by (cases "metric_history m (history_key mt sn)")
       (auto simp: store_in_history_def alloc_def Let_def series_def key_ref_def free_ref_def)
  show "next_ref m' =
           (if int (length new) > history_max_size m then Suc (free_ref m key) else free_ref m key)"
    unfolding m'_def new_def key_def
    by (cases "metric_history m (history_key mt sn)")
       (auto simp: store_in_history_def alloc_def Let_def series_def key_ref_def free_ref_def)
qed

lemma refs_of_other_key:
  assumes "hist_wf m" and "metric_history m k = Some r" and "k \<noteq> key"
  shows "r \<noteq> key_ref m key" and "r \<noteq> free_ref m key" and "r < free_ref m key"
proof -
  from assms(1,2) have lt: "r < next_ref m" by (rule hist_wf_ref)
  show "r \<noteq> key_ref m key"
  proof (cases "metric_history m key")
    case None
    with lt show ?thesis by (simp add: key_ref_def)
  next
    case (Some r')
    with assms have "r \<noteq> r'" by (auto dest: hist_wf_inj)
    with Some show ?thesis by (simp add: key_ref_def)
  qed
  from lt show "r < free_ref m key" by (simp add: free_ref_def split: option.splits)
  then show "r \<noteq> free_ref m key" by simp
qed

lemma key_ref_less_free: "hist_wf m \<Longrightarrow> key_ref m key < free_ref m key"
  by (auto simp: key_ref_def free_ref_def split: option.splits dest: hist_wf_ref)

lemma store_in_history_series:
  assumes "hist_wf m"
  shows "series (store_in_history mt sn d now m) k =
           (if k = history_key mt sn
            then trim (history_max_size m)
                   (series m k @ [\<lparr>entry_timestamp = now, entry_data = d\<rparr>])
            else series m k)"
proof (cases "k = history_key mt sn")
  case True
  from assms have "key_ref m k \<noteq> free_ref m k"
    using key_ref_less_free [of m k] by simp
  with True show ?thesis
    by (simp add: series_def [of "store_in_history mt sn d now m"] store_in_history_unfold trim_def)
next
  case False
  show ?thesis
  proof (cases "metric_history m k")
    case None
    with False show ?thesis
      by (simp add: series_def store_in_history_unfold)
  next
    case (Some r)
    from refs_of_other_key [OF assms Some False] Some False show ?thesis
      by (simp add: series_def store_in_history_unfold)
  qed
qed

lemma store_in_history_next_ref: "next_ref m \<le> next_ref (store_in_history mt sn d now m)"
  by (simp add: store_in_history_unfold free_ref_def split: option.splits)

lemma store_in_history_wf:
  assumes "hist_wf m"
  shows "hist_wf (store_in_history mt sn d now m)"
proof (rule hist_wfI)
  let ?key = "history_key mt sn"
  let ?m' = "store_in_history mt sn d now m"
  fix k r assume a: "metric_history ?m' k = Some r"
  show "r < next_ref ?m'"
  proof (cases "k = ?key")
    case True
    with a key_ref_less_free [OF assms, of ?key] show ?thesis
      by (auto simp: store_in_history_unfold split: if_splits)
  next
    case False
    with a have "metric_history m k = Some r" by (simp add: store_in_history_unfold)
    from refs_of_other_key(3) [OF assms this False] show ?thesis
      by (simp add: store_in_history_unfold)
  qed
next
  let ?key = "history_key mt sn"
  let ?m' = "store_in_history mt sn d now m"
  fix k k' r assume a: "metric_history ?m' k = Some r" and b: "metric_history ?m' k' = Some r"
  show "k = k'"
  proof (cases "k = ?key")
    case kk: True
    show ?thesis
    proof (cases "k' = ?key")
      case True
      with kk show ?thesis by simp
    next
      case False
      with b have "metric_history m k' = Some r" by (simp add: store_in_history_unfold)
      from refs_of_other_key(1,2) [OF assms this False] a kk show ?thesis
        by (auto simp: store_in_history_unfold split: if_splits)
    qed
  next
    case nk: False
    with a have ma: "metric_history m k = Some r" by (simp add: store_in_history_unfold)
    show ?thesis
    proof (cases "k' = ?key")
      case True
      from refs_of_other_key(1,2) [OF assms ma nk] b True show ?thesis
        by (auto simp: store_in_history_unfold split: if_splits)
    next
      case False
      with b have "metric_history m k' = Some r" by (simp add: store_in_history_unfold)
      with ma assms show ?thesis by (auto dest: hist_wf_inj)
    qed
  qed
qed

lemma hist_wf_new [simp]: "hist_wf (new_metrics_service t)"
  by (simp add: hist_wf_def new_metrics_service_def)

lemma series_new [simp]: "series (new_metrics_service t) k = []"
  by (simp add: series_def new_metrics_service_def)

lemma store_all_fields [simp]:
  "history_max_size (store_all calls m) = history_max_size m"
  by (induction calls m rule: store_all.induct) simp_all

lemma store_all_wf: "hist_wf m \<Longrightarrow> hist_wf (store_all calls m)"
  by (induction calls m rule: store_all.induct) (simp_all add: store_in_history_wf)

lemma entries_for_Cons:
  "entries_for k ((mt, sn, d, now) # calls) =
     (if history_key mt sn = k then [\<lparr>entry_timestamp = now, entry_data = d\<rparr>] else []) @
     entries_for k calls"
  by (simp add: entries_for_def)

lemma newest_short: "length xs \<le> n \<Longrightarrow> newest n xs = xs"
  by (simp add: newest_def)

lemma store_in_history_length:
  assumes "hist_wf m" and "history_max_size m = int n" and "0 < n" and "length (series m k) \<le> n"
  shows "length (series (store_in_history mt sn d now m) k) \<le> n"
  using assms by (simp add: store_in_history_series trim_newest length_newest)

lemma store_all_series:
  assumes "hist_wf m" and "history_max_size m = int n" and "0 < n" and "length (series m k) \<le> n"
  shows "series (store_all calls m) k = newest n (series m k @ entries_for k calls)"
  using assms
proof (induction calls m rule: store_all.induct)
  case (1 m)
  then show ?case by (simp add: entries_for_def newest_short)
next
  case (2 mt sn d now rest m)
  let ?m' = "store_in_history mt sn d now m"
  from 2(2-5) have len: "length (series ?m' k) \<le> n" by (rule store_in_history_length)
  from 2 len have "series (store_all rest ?m') k = newest n (series ?m' k @ entries_for k rest)"
    by (simp add: store_in_history_wf)
  also have "\<dots> = newest n (series m k @ entries_for k ((mt, sn, d, now) # rest))"
    using 2(2-5)
    by (simp add: store_in_history_series trim_newest entries_for_Cons newest_newest_append)
  finally show ?case by simp
qed

subsection \<open>The history cap\<close>

text \<open>
  C8. The service starts with an empty history and \<open>_history_max_size = 1000\<close>. After
  any sequence of successful refreshes, each of which stores one entry, the series of
  every history key has at most 1000 entries, and it is exactly the newest 1000 of the
  entries stored under that key, in the order they were stored: the oldest are dropped
  first.
\<close>

theorem history_capped_fifo:
  "length (series (store_all calls (new_metrics_service t)) key) \<le> 1000 \<and>
   series (store_all calls (new_metrics_service t)) key = newest 1000 (entries_for key calls)"
proof -
  have "series (store_all calls (new_metrics_service t)) key =
          newest 1000 (series (new_metrics_service t) key @ entries_for key calls)"
    by (rule store_all_series) (simp_all add: new_metrics_service_def hist_wf_def series_def)
  then have eq: "series (store_all calls (new_metrics_service t)) key = newest 1000 (entries_for key calls)"
    by simp
  show ?thesis unfolding eq by (simp add: length_newest)
qed

theorem history_capped_fifo_witness:
  "series (store_all ((''system'', ''hostA'', [(''cpu'', Num 1)], 0) #
                      replicate 1000 (''system'', ''hostA'', [(''cpu'', Num 2)], 60000000))
             (new_metrics_service 60)) ''system:hostA''
     = replicate 1000 \<lparr>entry_timestamp = 60000000, entry_data = [(''cpu'', Num 2)]\<rparr>"
proof -
  have e: "entries_for ''system:hostA'' (replicate n (''system'', ''hostA'', [(''cpu'', Num 2)], 60000000))
             = replicate n \<lparr>entry_timestamp = 60000000, entry_data = [(''cpu'', Num 2)]\<rparr>" for n
    by (induction n) (simp_all add: entries_for_def history_key_def)
  from history_capped_fifo
         [of "(''system'', ''hostA'', [(''cpu'', Num 1)], 0) #
              replicate 1000 (''system'', ''hostA'', [(''cpu'', Num 2)], 60000000)" 60 "''system:hostA''"]
  show ?thesis
    by (simp add: entries_for_Cons e history_key_def newest_def)
qed

subsection \<open>History queries\<close>

lemma in_bounds_none [simp]: "in_bounds None None = (\<lambda>x. True)"
  by (rule ext) (simp add: in_bounds_def)

lemma in_bounds_inclusive:
  "in_bounds st en x =
     ((case st of None \<Rightarrow> True | Some s \<Rightarrow> s \<le> entry_timestamp x) \<and>
      (case en of None \<Rightarrow> True | Some e \<Rightarrow> entry_timestamp x \<le> e))"
  by (auto simp: in_bounds_def split: option.splits)

lemma get_metrics_history_content:
  "lists (snd (get_metrics_history mt sn st en m)) (fst (get_metrics_history mt sn st en m)) =
     filter (in_bounds st en) (series m (history_key mt sn))"
  by (cases "metric_history m (history_key mt sn)"; cases st; cases en)
     (simp_all add: get_metrics_history_def alloc_def series_def)

lemma store_in_history_unshared:
  assumes "unshared m r"
  shows "lists (store_in_history mt sn d now m) r = lists m r"
    and "unshared (store_in_history mt sn d now m) r"
proof -
  let ?key = "history_key mt sn"
  from assms have lt: "r < next_ref m" and free: "\<And>k. metric_history m k \<noteq> Some r"
    by (simp_all add: unshared_def)
  from lt free [of ?key] have a: "r \<noteq> key_ref m ?key"
    by (auto simp: key_ref_def split: option.splits)
  from lt have b: "r < free_ref m ?key"
    by (simp add: free_ref_def split: option.splits)
  from a b show "lists (store_in_history mt sn d now m) r = lists m r"
    by (simp add: store_in_history_unfold)
  from a b free show "unshared (store_in_history mt sn d now m) r"
    by (auto simp: unshared_def store_in_history_unfold)
qed

lemma store_all_unshared:
  "unshared m r \<Longrightarrow> lists (store_all calls m) r = lists m r"
  by (induction calls m rule: store_all.induct) (simp_all add: store_in_history_unshared)

lemma get_metrics_history_fresh:
  assumes "hist_wf m" and "st \<noteq> None \<or> en \<noteq> None"
  shows "unshared (snd (get_metrics_history mt sn st en m)) (fst (get_metrics_history mt sn st en m))"
proof (cases "metric_history m (history_key mt sn)")
  case None
  with assms(2) have
    "get_metrics_history mt sn st en m =
       alloc (filter (in_bounds st en) (lists (snd (alloc [] m)) (fst (alloc [] m)))) (snd (alloc [] m))"
    by (auto simp: get_metrics_history_def Let_def split: prod.splits)
  then show ?thesis
    using hist_wf_ref [OF assms(1)]
    by (fastforce simp: alloc_def unshared_def)
next
  case (Some r)
  with assms(2) have
    "get_metrics_history mt sn st en m = alloc (filter (in_bounds st en) (lists m r)) m"
    by (auto simp: get_metrics_history_def Let_def)
  then show ?thesis
    using hist_wf_ref [OF assms(1)]
    by (fastforce simp: alloc_def unshared_def)
qed

text \<open>
  C9, as stated, fails on the code. With both bounds omitted \<open>get_metrics_history\<close>
  returns the stored list object itself, and \<open>_store_in_history\<close> appends to that object
  in place: here a result obtained after one refresh has a second entry after the next
  refresh.
\<close>

theorem history_result_aliased_counterexample:
  "\<not> lists (store_all [(''system'', ''hostA'', [(''cpu'', Num 2)], 61000000)]
              (snd (get_metrics_history ''system'' ''hostA'' None None
                      (store_all [(''system'', ''hostA'', [(''cpu'', Num 1)], 0)] (new_metrics_service 60)))))
            (fst (get_metrics_history ''system'' ''hostA'' None None
                    (store_all [(''system'', ''hostA'', [(''cpu'', Num 1)], 0)] (new_metrics_service 60))))
     = lists (snd (get_metrics_history ''system'' ''hostA'' None None
                    (store_all [(''system'', ''hostA'', [(''cpu'', Num 1)], 0)] (new_metrics_service 60))))
            (fst (get_metrics_history ''system'' ''hostA'' None None
                    (store_all [(''system'', ''hostA'', [(''cpu'', Num 1)], 0)] (new_metrics_service 60))))"
  by (simp add: get_metrics_history_def store_in_history_def alloc_def new_metrics_service_def
        history_key_def Let_def)

text \<open>
  C9, amended. \<open>get_metrics_history\<close> returns a list holding exactly the entries of the
  stored series whose timestamp lies within the bounds, in stored order; a bound that is
  given is inclusive and an omitted bound does not constrain. When at least one bound is
  given, the result is a new list: entries stored after the call do not appear in it.
\<close>

theorem history_filtered_snapshot:
  assumes "hist_wf m"
  shows "lists (snd (get_metrics_history mt sn st en m)) (fst (get_metrics_history mt sn st en m)) =
           filter (in_bounds st en) (series m (history_key mt sn)) \<and>
         (\<forall>x. in_bounds st en x =
                ((case st of None \<Rightarrow> True | Some s \<Rightarrow> s \<le> entry_timestamp x) \<and>
                 (case en of None \<Rightarrow> True | Some e \<Rightarrow> entry_timestamp x \<le> e))) \<and>
         (st \<noteq> None \<or> en \<noteq> None \<longrightarrow>
            lists (store_all calls (snd (get_metrics_history mt sn st en m)))
                  (fst (get_metrics_history mt sn st en m)) =
            lists (snd (get_metrics_history mt sn st en m)) (fst (get_metrics_history mt sn st en m)))"
proof (intro conjI allI impI)
  show "lists (snd (get_metrics_history mt sn st en m)) (fst (get_metrics_history mt sn st en m)) =
           filter (in_bounds st en) (series m (history_key mt sn))"
    by (rule get_metrics_history_content)
next
  fix x
  show "in_bounds st en x =
          ((case st of None \<Rightarrow> True | Some s \<Rightarrow> s \<le> entry_timestamp x) \<and>
           (case en of None \<Rightarrow> True | Some e \<Rightarrow> entry_timestamp x \<le> e))"
    by (rule in_bounds_inclusive)
next
  assume "st \<noteq> None \<or> en \<noteq> None"
  with assms have "unshared (snd (get_metrics_history mt sn st en m)) (fst (get_metrics_history mt sn st en m))"
    by (rule get_metrics_history_fresh)
  then show "lists (store_all calls (snd (get_metrics_history mt sn st en m)))
                  (fst (get_metrics_history mt sn st en m)) =
            lists (snd (get_metrics_history mt sn st en m)) (fst (get_metrics_history mt sn st en m))"
    by (rule store_all_unshared)
qed

theorem history_filtered_snapshot_witness:
  "hist_wf (store_all [(''system'', ''hostA'', [(''cpu'', Num 1)], 0),
                       (''system'', ''hostA'', [(''cpu'', Num 2)], 61000000)] (new_metrics_service 60)) \<and>
   lists (snd (get_metrics_history ''system'' ''hostA'' (Some 30000000) None
                 (store_all [(''system'', ''hostA'', [(''cpu'', Num 1)], 0),
                             (''system'', ''hostA'', [(''cpu'', Num 2)], 61000000)] (new_metrics_service 60))))
         (fst (get_metrics_history ''system'' ''hostA'' (Some 30000000) None
                 (store_all [(''system'', ''hostA'', [(''cpu'', Num 1)], 0),
                             (''system'', ''hostA'', [(''cpu'', Num 2)], 61000000)] (new_metrics_service 60))))
     = [\<lparr>entry_timestamp = 61000000, entry_data = [(''cpu'', Num 2)]\<rparr>] \<and>
   lists (store_all [(''system'', ''hostA'', [(''cpu'', Num 3)], 122000000)]
           (snd (get_metrics_history ''system'' ''hostA'' (Some 30000000) None
                 (store_all [(''system'', ''hostA'', [(''cpu'', Num 1)], 0),
                             (''system'', ''hostA'', [(''cpu'', Num 2)], 61000000)] (new_metrics_service 60)))))
         (fst (get_metrics_history ''system'' ''hostA'' (Some 30000000) None
                 (store_all [(''system'', ''hostA'', [(''cpu'', Num 1)], 0),
                             (''system'', ''hostA'', [(''cpu'', Num 2)], 61000000)] (new_metrics_service 60))))
     = [\<lparr>entry_timestamp = 61000000, entry_data = [(''cpu'', Num 2)]\<rparr>]"
proof -
  let ?calls = "[(''system'', ''hostA'', [(''cpu'', Num 1)], 0),
                 (''system'', ''hostA'', [(''cpu'', Num 2)], 61000000)]"
  let ?m = "store_all ?calls (new_metrics_service 60)"
  have wf: "hist_wf ?m" by (intro store_all_wf hist_wf_new)
  have "series ?m ''system:hostA'' =
          newest 1000 (series (new_metrics_service 60) ''system:hostA'' @ entries_for ''system:hostA'' ?calls)"
    by (rule store_all_series) (simp_all add: new_metrics_service_def hist_wf_def series_def)
  then have s: "series ?m (history_key ''system'' ''hostA'') =
          [\<lparr>entry_timestamp = 0, entry_data = [(''cpu'', Num 1)]\<rparr>,
           \<lparr>entry_timestamp = 61000000, entry_data = [(''cpu'', Num 2)]\<rparr>]"
    by (simp add: entries_for_def history_key_def newest_def)
  from history_filtered_snapshot
         [OF wf, of "''system''" "''hostA''" "Some 30000000" None
            "[(''system'', ''hostA'', [(''cpu'', Num 3)], 122000000)]"]
       wf
  show ?thesis
    unfolding s by (simp add: in_bounds_def)
qed

subsection \<open>Expiry of cache entries\<close>

lemma cache_after_store [simp]:
  "cache (store_in_cache key d ttl_arg now m) key =
     Some \<lparr>data = d, timestamp = now,
           ttl = (case ttl_arg of None \<Rightarrow> cache_ttl m | Some t \<Rightarrow> if t \<noteq> 0 then t else cache_ttl m)\<rparr>"
  by (simp add: store_in_cache_def)

lemma collect_metrics_fields [simp]:
  "cache (snd (collect_metrics exec strip to_float sn cmds acc m)) = cache m"
  "cache_ttl (snd (collect_metrics exec strip to_float sn cmds acc m)) = cache_ttl m"
  by (induction exec strip to_float sn cmds acc m rule: collect_metrics.induct)
     (auto simp: Let_def split: sum.splits)

lemma sample_collect:
  "collect_metrics sample_execute (\<lambda>s. s) (\<lambda>s. Some 10) sn system_commands [] m =
     (Inr sample_metrics, m\<lparr>executed := executed m @ map (\<lambda>(metric, command). (sn, command)) system_commands\<rparr>)"
  by (simp add: system_commands_def sample_execute_def sample_metrics_def Let_def)

lemma lookup_miss:
  assumes "fst (get_from_cache (get_cache_key ''system'' ''hostA'' ''{}'') now m) = None"
  shows "fst (lookup_at now m) = Inr sample_metrics"
    and "executed (snd (lookup_at now m)) =
           executed m @ map (\<lambda>(metric, command). (''hostA'', command)) system_commands"
    and "cache (snd (lookup_at now m)) (get_cache_key ''system'' ''hostA'' ''{}'') =
           Some \<lparr>data = sample_metrics, timestamp = now, ttl = cache_ttl m\<rparr>"
  using assms
  by (auto simp: lookup_at_def get_system_metrics_def sample_collect get_from_cache_def store_in_cache_def
           split: prod.splits option.splits if_splits)

lemma warm_cache:
  "cache warm_service (get_cache_key ''system'' ''hostA'' ''{}'') =
     Some \<lparr>data = sample_metrics, timestamp = 0, ttl = 60\<rparr>"
  unfolding warm_service_def
  by (subst lookup_miss(3))
     (simp_all add: get_from_cache_def new_metrics_service_def truthy_def)

lemma warm_executed: "length (executed warm_service) = 4"
  unfolding warm_service_def
  by (subst lookup_miss(2))
     (simp_all add: get_from_cache_def new_metrics_service_def truthy_def system_commands_def)

text \<open>
  The example of the specification, on the code: with a time to live of 60 s, the call at
  time 0 runs the remote commands, the call at 30 s returns the cached value and runs
  none, and the call at 61 s runs them again.
\<close>

lemma cache_example_0_30_61:
  "lookup_at 30000000 warm_service = (Inr sample_metrics, warm_service) \<and>
   fst (lookup_at 61000000 warm_service) = Inr sample_metrics \<and>
   length (executed (snd (lookup_at 61000000 warm_service))) = 8"
proof -
  have hit: "lookup_at 30000000 warm_service = (Inr sample_metrics, warm_service)"
    unfolding lookup_at_def
    using system_metrics_hit [OF warm_cache, of 30000000]
    by (simp add: td_seconds_def sample_metrics_def)
  have stale: "fst (get_from_cache (get_cache_key ''system'' ''hostA'' ''{}'') 61000000 warm_service) = None"
    by (simp add: get_from_cache_def warm_cache td_seconds_def)
  from hit lookup_miss(1,2) [OF stale] warm_executed show ?thesis
    by (simp add: system_commands_def)
qed

text \<open>
  C2 does not hold of the code. \<open>_get_from_cache\<close> compares
  \<open>(datetime.utcnow() - cache_entry.timestamp).seconds\<close>, the seconds component of the
  age, with the time to live. The entry cached at time 0 with a time to live of 60 s is
  expired when it is one day and 30 s old, and when it is 60.5 s old; at both times the
  call returns the cached value and runs no remote command (the service, with its log of
  commands, is unchanged).
\<close>

theorem day_old_entry_served_from_cache:
  "(case cache warm_service (get_cache_key ''system'' ''hostA'' ''{}'') of
      None \<Rightarrow> False
    | Some cache_entry \<Rightarrow> expired 86430000000 cache_entry \<and> expired 60500000 cache_entry) \<and>
   lookup_at 86430000000 warm_service = (Inr sample_metrics, warm_service) \<and>
   lookup_at 60500000 warm_service = (Inr sample_metrics, warm_service)"
proof -
  have a: "lookup_at 86430000000 warm_service = (Inr sample_metrics, warm_service)"
    unfolding lookup_at_def
    using system_metrics_hit [OF warm_cache, of 86430000000]
    by (simp add: td_seconds_def sample_metrics_def truthy_def)
  have b: "lookup_at 60500000 warm_service = (Inr sample_metrics, warm_service)"
    unfolding lookup_at_def
    using system_metrics_hit [OF warm_cache, of 60500000]
    by (simp add: td_seconds_def sample_metrics_def truthy_def)
  from a b show ?thesis
    by (simp add: warm_cache expired_def total_seconds_exceeds_def)
qed

text \<open>
  A second way in which a live entry is not served: \<open>if cached_data:\<close> is false for an
  empty dict, so a cached empty result (every command failed) is looked up anew.
\<close>

lemma empty_cached_value_not_served:
  assumes "cache m (get_cache_key ''system'' sn ''{}'') = Some \<lparr>data = [], timestamp = t0, ttl = 60\<rparr>"
  shows "executed (snd (get_system_metrics sample_execute (\<lambda>s. s) (\<lambda>s. Some 10) sn t0 t0 t0 m)) =
           executed m @ map (\<lambda>(metric, command). (sn, command)) system_commands"
  using assms
  by (simp add: get_system_metrics_def get_from_cache_def td_seconds_def truthy_def sample_collect
        store_in_cache_def)

end
